theory Spec2Isabelle
  imports Main "HOL-Library.Sublist"
begin

section \<open>Strings as the chunker and the crawler see them\<close>

text \<open>
  A JavaScript string is a sequence of UTF-16 code units and \<^verbatim>\<open>length\<close> counts them.
  The model writes a string as a \<^typ>\<open>string\<close>, one \<^typ>\<open>char\<close> per code unit, so it
  covers the strings whose code units are below 256. The white space, the line
  terminators and the lower-case mapping below are those of JavaScript on that range.
\<close>

definition LF :: char where
  "LF = CHR 0x0A"

definition isLineTerminator :: "char \<Rightarrow> bool" where
  "isLineTerminator c = (c = CHR 0x0A \<or> c = CHR 0x0D)"

text \<open>
  What \<^verbatim>\<open>\s\<close> of a regular expression and \<^verbatim>\<open>String.prototype.trim\<close> take for white
  space: tab, line feed, vertical tab, form feed, carriage return, space and the
  no-break space.
\<close>

definition isWhiteSpace :: "char \<Rightarrow> bool" where
  "isWhiteSpace c =
     (c = CHR 0x09 \<or> c = CHR 0x0A \<or> c = CHR 0x0B \<or> c = CHR 0x0C \<or> c = CHR 0x0D
      \<or> c = CHR 0x20 \<or> c = CHR 0xA0)"

definition trimStart :: "string \<Rightarrow> string" where
  "trimStart s = dropWhile isWhiteSpace s"

definition trimEnd :: "string \<Rightarrow> string" where
  "trimEnd s = rev (dropWhile isWhiteSpace (rev s))"

definition trim :: "string \<Rightarrow> string" where
  "trim s = trimEnd (trimStart s)"

text \<open>\<^verbatim>\<open>s.split(sep)\<close> for a separator of one code unit: never an empty array.\<close>

fun splitOn :: "char \<Rightarrow> string \<Rightarrow> string list" where
  "splitOn sep [] = [[]]"
| "splitOn sep (c # cs) =
     (if c = sep then [] # splitOn sep cs
      else (case splitOn sep cs of
              [] \<Rightarrow> [[c]]
            | p # ps \<Rightarrow> (c # p) # ps))"

text \<open>\<^verbatim>\<open>parts.join(sep)\<close>.\<close>

fun join :: "string \<Rightarrow> string list \<Rightarrow> string" where
  "join sep [] = []"
| "join sep [p] = p"
| "join sep (p # q # ps) = p @ sep @ join sep (q # ps)"

text \<open>
  \<^verbatim>\<open>String.prototype.toLowerCase\<close> on the code units below 256: the letters A to Z and
  the capital letters of the Latin-1 block (0xC0 to 0xDE without the multiplication sign
  0xD7) move up by 32.
\<close>

definition lowerChar :: "char \<Rightarrow> char" where
  "lowerChar c =
     (let n = (of_char c :: nat)
      in if (65 \<le> n \<and> n \<le> 90) \<or> (192 \<le> n \<and> n \<le> 222 \<and> n \<noteq> 215)
         then char_of (n + 32) else c)"

definition toLowerCase :: "string \<Rightarrow> string" where
  "toLowerCase s = map lowerChar s"

text \<open>The class \<^verbatim>\<open>[a-z0-9]\<close>.\<close>

definition isSlugChar :: "char \<Rightarrow> bool" where
  "isSlugChar c =
     (let n = (of_char c :: nat) in (97 \<le> n \<and> n \<le> 122) \<or> (48 \<le> n \<and> n \<le> 57))"

text \<open>
  \<^verbatim>\<open>.replace(/[^a-z0-9]+/g, "-")\<close>: every maximal run of code units outside the class
  becomes one hyphen. The flag says whether the scan is inside such a run.
\<close>

fun replaceRuns :: "bool \<Rightarrow> string \<Rightarrow> string" where
  "replaceRuns inRun [] = []"
| "replaceRuns inRun (c # cs) =
     (if isSlugChar c then c # replaceRuns False cs
      else if inRun then replaceRuns True cs
      else CHR ''-'' # replaceRuns True cs)"

text \<open>
  \<^verbatim>\<open>.replace(/^-|-$/g, "")\<close>: one hyphen at the start goes, then one hyphen at the end
  of what is left.
\<close>

definition stripEdgeHyphens :: "string \<Rightarrow> string" where
  "stripEdgeHyphens s =
     (let s1 = (case s of [] \<Rightarrow> [] | c # cs \<Rightarrow> if c = CHR ''-'' then cs else s)
      in if s1 \<noteq> [] \<and> last s1 = CHR ''-'' then butlast s1 else s1)"

definition slugify :: "string \<Rightarrow> string" where
  "slugify text = stripEdgeHyphens (replaceRuns False (toLowerCase text))"

text \<open>
  \<^verbatim>\<open>String(i)\<close> for a non-negative integer: its decimal digits, most significant first.
\<close>

definition digitChar :: "nat \<Rightarrow> char" where
  "digitChar d = char_of (48 + d)"

fun natToString :: "nat \<Rightarrow> string" where
  "natToString n = (if n < 10 then [digitChar n] else natToString (n div 10) @ [digitChar (n mod 10)])"

declare natToString.simps [simp del]

text \<open>\<^verbatim>\<open>s.padStart(n, "0")\<close>.\<close>

definition padStart :: "nat \<Rightarrow> string \<Rightarrow> string" where
  "padStart n s = replicate (n - length s) (CHR ''0'') @ s"

section \<open>The chunker\<close>

definition MAX_CHUNK_TOKENS :: nat where
  "MAX_CHUNK_TOKENS = 1500"

definition MIN_CHUNK_TOKENS :: nat where
  "MIN_CHUNK_TOKENS = 100"

text \<open>\<^verbatim>\<open>Math.ceil(text.length / 4)\<close>.\<close>

definition estimateTokens :: "string \<Rightarrow> nat" where
  "estimateTokens text = (length text + 3) div 4"

datatype FetchMethod = Static | Playwright

record CrawlResult =
  url :: string
  path :: string
  sectionName :: string
  title :: string
  description :: string
  markdown :: string
  discoveredPaths :: "string list"
  crawledAt :: string
  fetchMethod :: FetchMethod

record Section =
  heading :: string
  headingLevel :: nat
  content :: string

record DocChunk =
  chunk_id :: string
  chunk_url :: string
  chunk_path :: string
  chunk_section :: string
  chunk_title :: string
  chunk_heading :: string
  chunk_headingLevel :: nat
  parentHeadings :: "string list"
  chunk_content :: string
  tokenEstimate :: nat
  chunk_crawledAt :: string
  chunkIndex :: nat
  totalChunks :: nat


subsection \<open>Split: sections at heading lines\<close>

text \<open>
  \<^verbatim>\<open>line.match(/^(#{1,6})\s+(.+)$/)\<close>, returning the two groups. The line must start
  with one to six hashes followed by white space. Let \<open>w\<close> be the run of white space
  after the hashes and \<open>t\<close> what follows it. \<^verbatim>\<open>.\<close> matches no line terminator and
  \<^verbatim>\<open>$\<close> only the end of the line, so when \<open>t\<close> is not empty the match succeeds exactly
  when \<open>t\<close> holds no line terminator, and the second group is \<open>t\<close>; when \<open>t\<close> is empty
  \<^verbatim>\<open>\s+\<close> gives its last code unit back to \<^verbatim>\<open>.+\<close>, which needs a run of at least two
  whose last is no line terminator.
\<close>

definition headingMatch :: "string \<Rightarrow> (string \<times> string) option" where
  "headingMatch line =
     (let hashes = takeWhile (\<lambda>c. c = CHR ''#'') line;
          rest = dropWhile (\<lambda>c. c = CHR ''#'') line;
          w = takeWhile isWhiteSpace rest;
          t = dropWhile isWhiteSpace rest
      in if 1 \<le> length hashes \<and> length hashes \<le> 6 \<and> w \<noteq> [] then
           (if t \<noteq> [] then
              (if list_ex isLineTerminator t then None else Some (hashes, t))
            else if 2 \<le> length w \<and> \<not> isLineTerminator (last w) then Some (hashes, [last w])
            else None)
         else None)"

text \<open>What the two \<^verbatim>\<open>sections.push\<close> of \<^verbatim>\<open>splitByHeadings\<close> do, guarded as there.\<close>

definition pushSection :: "Section list \<Rightarrow> string \<Rightarrow> nat \<Rightarrow> string list \<Rightarrow> Section list" where
  "pushSection sections currentHeading currentLevel currentLines =
     (if currentLines \<noteq> [] then
        sections @ [\<lparr>heading = currentHeading, headingLevel = currentLevel,
                      content = trim (join [LF] currentLines)\<rparr>]
      else sections)"

text \<open>The loop over the lines, with the loop's variables as arguments.\<close>

fun splitLoop :: "string list \<Rightarrow> Section list \<Rightarrow> string \<Rightarrow> nat \<Rightarrow> string list \<Rightarrow> Section list" where
  "splitLoop [] sections currentHeading currentLevel currentLines =
     pushSection sections currentHeading currentLevel currentLines"
| "splitLoop (line # lines) sections currentHeading currentLevel currentLines =
     (case headingMatch line of
        Some (hashes, txt) \<Rightarrow>
          splitLoop lines (pushSection sections currentHeading currentLevel currentLines)
            (trim txt) (length hashes) [line]
      | None \<Rightarrow>
          splitLoop lines sections currentHeading currentLevel (currentLines @ [line]))"

definition splitByHeadings :: "string \<Rightarrow> Section list" where
  "splitByHeadings md = splitLoop (splitOn LF md) [] [] 0 []"

subsection \<open>Merge small\<close>

fun mergeLoop :: "Section list \<Rightarrow> Section list \<Rightarrow> Section list" where
  "mergeLoop merged [] = merged"
| "mergeLoop merged (s # sections) =
     (let tokens = estimateTokens (content s)
      in if merged \<noteq> [] \<and> tokens < MIN_CHUNK_TOKENS
            \<and> estimateTokens (content (last merged)) + tokens < MAX_CHUNK_TOKENS
         then mergeLoop
                (butlast merged @
                   [(last merged)\<lparr>content := content (last merged) @ [LF, LF] @ content s\<rparr>])
                sections
         else mergeLoop (merged @ [s]) sections)"

definition mergeSections :: "Section list \<Rightarrow> Section list" where
  "mergeSections sections = mergeLoop [] sections"

subsection \<open>Split large\<close>

text \<open>
  \<^verbatim>\<open>content.split(/\n\n+/)\<close>: the string is cut at every maximal run of two or more
  line feeds; a single line feed stays inside its paragraph.
\<close>

function (sequential) splitParagraphs :: "string \<Rightarrow> string list" where
  "splitParagraphs [] = [[]]"
| "splitParagraphs [c] = [[c]]"
| "splitParagraphs (c # d # ds) =
     (if c = LF \<and> d = LF then [] # splitParagraphs (dropWhile (\<lambda>x. x = LF) ds)
      else (case splitParagraphs (d # ds) of
              [] \<Rightarrow> [[c]]
            | p # ps \<Rightarrow> (c # p) # ps))"
  by pat_completeness auto
termination
proof (relation "measure length")
  show "wf (measure length)" by simp
next
  fix c d :: char and ds :: string
  have "length (dropWhile (\<lambda>x. x = LF) ds) \<le> length ds"
    by (rule length_dropWhile_le)
  then show "(dropWhile (\<lambda>x. x = LF) ds, c # d # ds) \<in> measure length"
    by simp
next
  fix c d :: char and ds :: string
  show "(d # ds, c # d # ds) \<in> measure length" by simp
qed

definition pieceOf :: "Section \<Rightarrow> string list \<Rightarrow> Section" where
  "pieceOf s currentParagraphs =
     \<lparr>heading = heading s, headingLevel = headingLevel s,
      content = join [LF, LF] currentParagraphs\<rparr>"

fun packLoop :: "Section \<Rightarrow> string list \<Rightarrow> Section list \<Rightarrow> string list \<Rightarrow> nat \<Rightarrow> Section list" where
  "packLoop s [] result currentParagraphs currentTokens =
     (if currentParagraphs \<noteq> [] then result @ [pieceOf s currentParagraphs] else result)"
| "packLoop s (para # paragraphs) result currentParagraphs currentTokens =
     (let paraTokens = estimateTokens para
      in if currentTokens + paraTokens > MAX_CHUNK_TOKENS \<and> currentParagraphs \<noteq> [] then
           packLoop s paragraphs (result @ [pieceOf s currentParagraphs]) [para] paraTokens
         else
           packLoop s paragraphs result (currentParagraphs @ [para]) (currentTokens + paraTokens))"

definition splitLargeSection :: "Section \<Rightarrow> Section list" where
  "splitLargeSection s =
     (if estimateTokens (content s) \<le> MAX_CHUNK_TOKENS then [s]
      else packLoop s (splitParagraphs (content s)) [] [] 0)"

subsection \<open>Heading hierarchy\<close>

text \<open>The stack is a JavaScript array: its top is the last element.\<close>

type_synonym stackEntry = "string \<times> nat"

function popStack :: "stackEntry list \<Rightarrow> nat \<Rightarrow> stackEntry list" where
  "popStack stack lvl =
     (if stack \<noteq> [] \<and> snd (last stack) \<ge> lvl then popStack (butlast stack) lvl else stack)"
  by pat_completeness auto
termination
  by (relation "measure (\<lambda>(stack, lvl). length stack)") auto

declare popStack.simps [simp del]

fun hierarchyLoop :: "Section list \<Rightarrow> string \<Rightarrow> string list list \<Rightarrow> stackEntry list \<Rightarrow> string list list" where
  "hierarchyLoop [] pageTitle hierarchies stack = hierarchies"
| "hierarchyLoop (s # sections) pageTitle hierarchies stack =
     (let popped = popStack stack (headingLevel s);
          pushed = (if heading s \<noteq> [] then popped @ [(heading s, headingLevel s)] else popped);
          trail = pageTitle # map fst pushed
      in hierarchyLoop sections pageTitle (hierarchies @ [trail]) pushed)"

definition buildHeadingHierarchy :: "Section list \<Rightarrow> string \<Rightarrow> string list list" where
  "buildHeadingHierarchy sections pageTitle = hierarchyLoop sections pageTitle [] []"

subsection \<open>Chunks of a page\<close>

text \<open>\<^verbatim>\<open>slugify(page.title || page.path.split("/").pop() || "unknown")\<close>.\<close>

definition pageSlug :: "CrawlResult \<Rightarrow> string" where
  "pageSlug page =
     slugify (if title page \<noteq> [] then title page
              else if last (splitOn (CHR ''/'') (path page)) \<noteq> []
                   then last (splitOn (CHR ''/'') (path page))
              else ''unknown'')"

text \<open>The sections after the three phases: split, merge small, split large.\<close>

definition pageSections :: "CrawlResult \<Rightarrow> Section list" where
  "pageSections page =
     concat (map splitLargeSection (mergeSections (splitByHeadings (markdown page))))"

text \<open>
  The object built for section \<open>i\<close>. \<^verbatim>\<open>hierarchies[i] || [page.title]\<close> takes the
  fallback only when the index is out of range: an array is never falsy.
\<close>

definition makeChunk :: "CrawlResult \<Rightarrow> string \<Rightarrow> string list list \<Rightarrow> nat \<Rightarrow> nat \<times> Section \<Rightarrow> DocChunk" where
  "makeChunk page slug hierarchies total_chunks p =
     (case p of (i, s) \<Rightarrow>
       \<lparr>chunk_id = slug @ ''-'' @ padStart 2 (natToString i),
        chunk_url = url page,
        chunk_path = path page,
        chunk_section = sectionName page,
        chunk_title = title page,
        chunk_heading = (if heading s \<noteq> [] then heading s else title page),
        chunk_headingLevel = headingLevel s,
        parentHeadings = (if i < length hierarchies then hierarchies ! i else [title page]),
        chunk_content = content s,
        tokenEstimate = estimateTokens (content s),
        chunk_crawledAt = crawledAt page,
        chunkIndex = i,
        totalChunks = total_chunks\<rparr>)"

definition chunkPage :: "CrawlResult \<Rightarrow> DocChunk list" where
  "chunkPage page =
     (if trim (markdown page) = [] then []
      else (let slug = pageSlug page;
                sections = pageSections page;
                hierarchies = buildHeadingHierarchy sections (title page);
                total_chunks = length sections
            in map (makeChunk page slug hierarchies total_chunks) (enumerate 0 sections)))"

definition chunkAll :: "CrawlResult list \<Rightarrow> DocChunk list" where
  "chunkAll pages = concat (map chunkPage pages)"

section \<open>The fetcher\<close>

definition BASE_URL :: string where
  "BASE_URL = ''https://dev.clever.com''"

definition CONCURRENCY :: nat where
  "CONCURRENCY = 5"

text \<open>
  What the libraries outside the repository (cheerio for the DOM, turndown for the
  markdown) read from one HTML document: the text of the first \<^verbatim>\<open>h1\<close>, the text of
  \<^verbatim>\<open>title\<close>, the two description attributes (absent or present), the markdown that
  turndown gives for the content region the selectors choose, and the \<^verbatim>\<open>href\<close> values
  of the \<^verbatim>\<open>a[href]\<close> elements of the original document, in document order.
\<close>

record ParsedHtml =
  h1Text :: string
  titleText :: string
  metaDescription :: "string option"
  ogDescription :: "string option"
  turndownOutput :: string
  hrefs :: "string list"

text \<open>
  \<^verbatim>\<open>.replace(/ \|.*$/, "")\<close>: the text is cut at the first space followed by a bar after
  which no line terminator comes (\<^verbatim>\<open>.\<close> matches none, \<^verbatim>\<open>$\<close> is the end of the text).
\<close>

fun stripTitleSuffix :: "string \<Rightarrow> string" where
  "stripTitleSuffix [] = []"
| "stripTitleSuffix (c # cs) =
     (if c = CHR '' '' \<and> cs \<noteq> [] \<and> hd cs = CHR ''|'' \<and> \<not> list_ex isLineTerminator (tl cs)
      then []
      else c # stripTitleSuffix cs)"

text \<open>
  \<^verbatim>\<open>$("h1").first().text().trim() || $("title").text().replace(...).trim()
  || path.split("/").pop() || ""\<close>.
\<close>

definition extractTitle :: "ParsedHtml \<Rightarrow> string \<Rightarrow> string" where
  "extractTitle doc p =
     (if trim (h1Text doc) \<noteq> [] then trim (h1Text doc)
      else if trim (stripTitleSuffix (titleText doc)) \<noteq> []
           then trim (stripTitleSuffix (titleText doc))
      else last (splitOn (CHR ''/'') p))"

definition extractDescription :: "ParsedHtml \<Rightarrow> string" where
  "extractDescription doc =
     (case metaDescription doc of
        Some d \<Rightarrow> d
      | None \<Rightarrow> (case ogDescription doc of Some d \<Rightarrow> d | None \<Rightarrow> []))"

text \<open>
  The loop over the links: an empty \<^verbatim>\<open>href\<close> is skipped; a link that starts with
  \<^verbatim>\<open>/docs/\<close> and holds no \<^verbatim>\<open>#\<close> is cut at its first \<^verbatim>\<open>?\<close> and pushed unless the list
  holds it already.
\<close>

fun discoverLoop :: "string list \<Rightarrow> string list \<Rightarrow> string list" where
  "discoverLoop [] discovered = discovered"
| "discoverLoop (href # rest) discovered =
     (if href = [] then discoverLoop rest discovered
      else if prefix ''/docs/'' href \<and> CHR ''#'' \<notin> set href then
        (let clean = hd (splitOn (CHR ''?'') href)
         in if clean \<in> set discovered then discoverLoop rest discovered
            else discoverLoop rest (discovered @ [clean]))
      else discoverLoop rest discovered)"

text \<open>The last argument is the clock's \<^verbatim>\<open>new Date().toISOString()\<close>.\<close>

definition extractFromHtml ::
  "ParsedHtml \<Rightarrow> string \<Rightarrow> string \<Rightarrow> string \<Rightarrow> FetchMethod \<Rightarrow> string \<Rightarrow> CrawlResult" where
  "extractFromHtml doc u p sect tag now =
     \<lparr>url = u, path = p, sectionName = sect,
      title = extractTitle doc p,
      description = extractDescription doc,
      markdown = trim (turndownOutput doc),
      discoveredPaths = discoverLoop (hrefs doc) [],
      crawledAt = now,
      fetchMethod = tag\<rparr>"

text \<open>
  A call either returns or throws. What the network and the browser do during one call
  of \<open>crawlPage\<close> is its input here: the static request throws, answers with a status
  that is not ok, or answers with a document; opening the browser page throws or not;
  loading, waiting and reading the rendered page throws or gives a document; closing the
  page throws or not; and the clock is read once per extraction.
\<close>

datatype 'a outcome = Throws | Returns 'a

datatype StaticResponse = FetchThrows | NotOk | Ok ParsedHtml

datatype RenderResponse = RenderThrows | Rendered ParsedHtml

record Network =
  staticResponse :: StaticResponse
  staticClock :: string
  newPageThrows :: bool
  renderResponse :: RenderResponse
  renderClock :: string
  closeThrows :: bool

definition fetchStatic :: "string \<Rightarrow> string \<Rightarrow> Network \<Rightarrow> CrawlResult option outcome" where
  "fetchStatic p sect net =
     (case staticResponse net of
        FetchThrows \<Rightarrow> Throws
      | NotOk \<Rightarrow> Returns None
      | Ok doc \<Rightarrow>
          Returns (Some (extractFromHtml doc (BASE_URL @ p) p sect Static (staticClock net))))"

text \<open>
  \<^verbatim>\<open>browser.newPage()\<close> stands before the \<^verbatim>\<open>try\<close>; the \<^verbatim>\<open>catch\<close> turns a throw of the
  body into \<^verbatim>\<open>null\<close>; \<^verbatim>\<open>page.close()\<close> stands in the \<^verbatim>\<open>finally\<close>, and a throw
  there replaces what the body or the \<^verbatim>\<open>catch\<close> returned.
\<close>

definition fetchWithPlaywright :: "string \<Rightarrow> string \<Rightarrow> Network \<Rightarrow> CrawlResult option outcome" where
  "fetchWithPlaywright p sect net =
     (if newPageThrows net then Throws
      else (let caught =
                  (case renderResponse net of
                     RenderThrows \<Rightarrow> None
                   | Rendered doc \<Rightarrow>
                       Some (extractFromHtml doc (BASE_URL @ p) p sect Playwright (renderClock net)))
            in if closeThrows net then Throws else Returns caught))"

text \<open>
  \<open>crawlPage\<close>; the first argument is \<^verbatim>\<open>THIN_PAGE_THRESHOLD\<close>, which the function
  imports from a configuration that does not define it in the sources at hand. The
  outer \<^verbatim>\<open>catch\<close> turns every throw into \<^verbatim>\<open>null\<close>.
\<close>

definition crawlPage :: "nat \<Rightarrow> string \<Rightarrow> string \<Rightarrow> Network \<Rightarrow> CrawlResult option" where
  "crawlPage thinPageThreshold p sect net =
     (case fetchStatic p sect net of
        Throws \<Rightarrow> None
      | Returns None \<Rightarrow> None
      | Returns (Some result) \<Rightarrow>
          (let tokens = estimateTokens (markdown result)
           in if tokens \<ge> thinPageThreshold then Some result
              else (case fetchWithPlaywright p sect net of
                      Throws \<Rightarrow> None
                    | Returns None \<Rightarrow> Some result
                    | Returns (Some pwResult) \<Rightarrow>
                        (if estimateTokens (markdown pwResult) > tokens then Some pwResult
                         else Some result))))"

section \<open>The frontier crawler\<close>

record Task =
  taskPath :: string
  taskSection :: string

text \<open>
  The loop over a result's \<open>discoveredPaths\<close>: a path is pushed, tagged
  \<^verbatim>\<open>"Discovered"\<close>, unless it is visited or some task of the queue has it; a path pushed
  earlier in the same loop counts as queued.
\<close>

fun enqueueDiscovered :: "string list \<Rightarrow> string set \<Rightarrow> Task list \<Rightarrow> Task list" where
  "enqueueDiscovered [] seen q = q"
| "enqueueDiscovered (d # ds) seen q =
     (if d \<notin> seen \<and> \<not> list_ex (\<lambda>t. taskPath t = d) q
      then enqueueDiscovered ds seen (q @ [\<lparr>taskPath = d, taskSection = ''Discovered''\<rparr>])
      else enqueueDiscovered ds seen q)"

text \<open>
  The workers are the \<open>CONCURRENCY\<close> calls of \<^verbatim>\<open>processNext\<close>. They run on one thread:
  a worker runs alone from one \<^verbatim>\<open>await\<close> to the next, so a worker is always at one of
  these points: at the head of its \<^verbatim>\<open>while\<close> loop, in the delay before a fetch, in
  the fetch of a task, or past the loop.
\<close>

datatype Worker = AtLoopHead | Delaying Task | Fetching Task | Exited

text \<open>
  The variables the workers share (\<open>queue\<close>, \<open>visited\<close>, \<open>results\<close>), the points the
  workers are at, and three histories that the code does not keep and that the
  properties speak about: the tasks taken off the queue, in the order they were taken,
  the tasks \<open>crawlPage\<close> was called for, in the order of the calls, and the tasks whose
  \<open>crawlPage\<close> came back with \<^verbatim>\<open>null\<close>.
\<close>

record CrawlState =
  queue :: "Task list"
  visited :: "string set"
  results :: "CrawlResult list"
  workers :: "Worker list"
  dequeued :: "Task list"
  fetched :: "Task list"
  failures :: "Task list"

definition initialState :: "Task list \<Rightarrow> CrawlState" where
  "initialState pages =
     \<lparr>queue = pages, visited = {}, results = [],
      workers = replicate CONCURRENCY AtLoopHead, dequeued = [], fetched = [],
      failures = []\<rparr>"

text \<open>
  One step is what one worker does between two \<^verbatim>\<open>await\<close>s. At the loop head with an
  empty queue the worker leaves the loop. With a task at the front of the queue it takes
  the task off; if the task's path is visited it is back at the loop head
  (\<^verbatim>\<open>continue\<close>), otherwise it marks the path visited and starts the delay, all in the
  same step. After the delay it calls \<open>crawlPage\<close>. When \<open>crawlPage\<close> is back, with
  whatever the network did, a result is pushed and its discovered paths are enqueued,
  and the worker is at the loop head again. The first argument is the threshold
  \<open>crawlPage\<close> takes.
\<close>

inductive step :: "nat \<Rightarrow> CrawlState \<Rightarrow> CrawlState \<Rightarrow> bool" for thr :: nat where
  leave:
    "\<lbrakk>i < length (workers s); workers s ! i = AtLoopHead; queue s = []\<rbrakk>
     \<Longrightarrow> step thr s (s\<lparr>workers := (workers s)[i := Exited]\<rparr>)"
| skip:
    "\<lbrakk>i < length (workers s); workers s ! i = AtLoopHead; queue s = item # rest;
      taskPath item \<in> visited s\<rbrakk>
     \<Longrightarrow> step thr s (s\<lparr>queue := rest, dequeued := dequeued s @ [item]\<rparr>)"
| claim:
    "\<lbrakk>i < length (workers s); workers s ! i = AtLoopHead; queue s = item # rest;
      taskPath item \<notin> visited s\<rbrakk>
     \<Longrightarrow> step thr s
           (s\<lparr>queue := rest, visited := insert (taskPath item) (visited s),
              workers := (workers s)[i := Delaying item],
              dequeued := dequeued s @ [item]\<rparr>)"
| call:
    "\<lbrakk>i < length (workers s); workers s ! i = Delaying item\<rbrakk>
     \<Longrightarrow> step thr s
           (s\<lparr>workers := (workers s)[i := Fetching item], fetched := fetched s @ [item]\<rparr>)"
| failed:
    "\<lbrakk>i < length (workers s); workers s ! i = Fetching item;
      crawlPage thr (taskPath item) (taskSection item) net = None\<rbrakk>
     \<Longrightarrow> step thr s
           (s\<lparr>workers := (workers s)[i := AtLoopHead], failures := failures s @ [item]\<rparr>)"
| finished:
    "\<lbrakk>i < length (workers s); workers s ! i = Fetching item;
      crawlPage thr (taskPath item) (taskSection item) net = Some r\<rbrakk>
     \<Longrightarrow> step thr s
           (s\<lparr>queue := enqueueDiscovered (discoveredPaths r) (visited s) (queue s),
              results := results s @ [r],
              workers := (workers s)[i := AtLoopHead]\<rparr>)"

text \<open>The states \<open>crawlAll\<close> can be in, started on a list of tasks.\<close>

inductive reachable :: "nat \<Rightarrow> Task list \<Rightarrow> CrawlState \<Rightarrow> bool" for thr :: nat and pages :: "Task list" where
  start: "reachable thr pages (initialState pages)"
| after: "\<lbrakk>reachable thr pages s; step thr s s'\<rbrakk> \<Longrightarrow> reachable thr pages s'"

text \<open>The task a worker has taken and not finished.\<close>

fun holding :: "Worker \<Rightarrow> Task option" where
  "holding (Delaying t) = Some t"
| "holding (Fetching t) = Some t"
| "holding AtLoopHead = None"
| "holding Exited = None"

text \<open>The first task taken off the queue that has a given path.\<close>

definition firstDequeued :: "CrawlState \<Rightarrow> string \<Rightarrow> Task option" where
  "firstDequeued s p = find (\<lambda>t. taskPath t = p) (dequeued s)"

text \<open>No two workers hold tasks of the same path.\<close>

definition exclusive :: "Worker list \<Rightarrow> bool" where
  "exclusive ws =
     (\<forall>a<length ws. \<forall>b<length ws. \<forall>t u.
        a \<noteq> b \<and> holding (ws ! a) = Some t \<and> holding (ws ! b) = Some u \<longrightarrow>
        taskPath t \<noteq> taskPath u)"

text \<open>
  What holds in every state of a crawl: a path is fetched at most once; whatever was
  fetched or is held by a worker is visited and was the first task of its path to leave
  the queue; a held path has no result yet; no two workers hold the same path; a path
  in the delay has not been fetched; a task in its fetch is in the history of fetches;
  the results have distinct paths and each belongs to a fetched task; every path that
  left the queue is visited; the queue is served in order; every visited path is
  fetched or in the delay before its fetch; every fetched task is still in its fetch,
  has failed or has a result; and the queue is empty once every worker has left.
\<close>

definition crawlInv :: "Task list \<Rightarrow> CrawlState \<Rightarrow> bool" where
  "crawlInv pages s =
     (distinct (map taskPath (fetched s))
      \<and> (\<forall>t\<in>set (fetched s). taskPath t \<in> visited s \<and> firstDequeued s (taskPath t) = Some t)
      \<and> (\<forall>w\<in>set (workers s). \<forall>t. holding w = Some t \<longrightarrow>
            taskPath t \<in> visited s \<and> firstDequeued s (taskPath t) = Some t
            \<and> taskPath t \<notin> path ` set (results s))
      \<and> exclusive (workers s)
      \<and> (\<forall>t. Delaying t \<in> set (workers s) \<longrightarrow> taskPath t \<notin> taskPath ` set (fetched s))
      \<and> (\<forall>t. Fetching t \<in> set (workers s) \<longrightarrow> t \<in> set (fetched s))
      \<and> distinct (map path (results s))
      \<and> (\<forall>r\<in>set (results s).
            \<lparr>taskPath = path r, taskSection = sectionName r\<rparr> \<in> set (fetched s))
      \<and> taskPath ` set (dequeued s) \<subseteq> visited s
      \<and> (\<exists>added. dequeued s @ queue s = pages @ added)
      \<and> visited s \<subseteq> taskPath ` set (fetched s)
                      \<union> {taskPath t | t. Delaying t \<in> set (workers s)}
      \<and> (\<forall>t\<in>set (fetched s).
            Fetching t \<in> set (workers s) \<or> t \<in> set (failures s)
            \<or> taskPath t \<in> path ` set (results s))
      \<and> ((\<exists>w\<in>set (workers s). w \<noteq> Exited) \<or> queue s = []))"

section \<open>The driver: chunk files\<close>

text \<open>
  After chunking, \<^verbatim>\<open>main\<close> keeps the chunks of at least \<^verbatim>\<open>MIN_USEFUL_TOKENS\<close> estimated
  tokens, empties the directory \<^verbatim>\<open>CHUNKS_DIR\<close> and writes every kept chunk, in order, to
  the file \<^verbatim>\<open>join(CHUNKS_DIR, `${chunk.id}.json`)\<close>. An id holds lower-case letters,
  digits and hyphens only, so the joined path is the directory, a slash and the file
  name. \<^verbatim>\<open>writeFileSync\<close> replaces a file that exists. The directory is a map from file
  paths to what the files hold; a file holds the JSON text of a chunk, which stands for
  the chunk and is modelled by it.
\<close>

definition MIN_USEFUL_TOKENS :: nat where
  "MIN_USEFUL_TOKENS = 30"

definition CHUNKS_DIR :: string where
  "CHUNKS_DIR = ''docs/chunks''"

definition filePath :: "DocChunk \<Rightarrow> string" where
  "filePath chunk = CHUNKS_DIR @ ''/'' @ chunk_id chunk @ ''.json''"

definition usefulChunks :: "CrawlResult list \<Rightarrow> DocChunk list" where
  "usefulChunks pages = filter (\<lambda>c. tokenEstimate c \<ge> MIN_USEFUL_TOKENS) (chunkAll pages)"

fun writeChunks :: "DocChunk list \<Rightarrow> (string \<rightharpoonup> DocChunk) \<Rightarrow> (string \<rightharpoonup> DocChunk)" where
  "writeChunks [] files = files"
| "writeChunks (chunk # chunks) files = writeChunks chunks (files(filePath chunk \<mapsto> chunk))"

definition chunkFiles :: "CrawlResult list \<Rightarrow> (string \<rightharpoonup> DocChunk)" where
  "chunkFiles pages = writeChunks (usefulChunks pages) Map.empty"

subsection \<open>The heading hierarchy as the specification words it\<close>

text \<open>
  The specification's reading of one step of the walk, to compare \<open>buildHeadingHierarchy\<close>
  with: all stack entries whose level is greater than or equal to the section's level
  go, wherever they stand in the stack, and a non-empty heading is pushed.
\<close>

definition specStackStep :: "stackEntry list \<Rightarrow> Section \<Rightarrow> stackEntry list" where
  "specStackStep stack s =
     (let kept = filter (\<lambda>e. snd e < headingLevel s) stack
      in if heading s \<noteq> [] then kept @ [(heading s, headingLevel s)] else kept)"

text \<open>
  The walk as a fold threading the stack: each section gets the page title followed by
  the stack's headings from root to nearest.
\<close>

fun specHierarchy :: "Section list \<Rightarrow> string \<Rightarrow> stackEntry list \<Rightarrow> string list list" where
  "specHierarchy [] pageTitle stack = []"
| "specHierarchy (s # sections) pageTitle stack =
     (pageTitle # map fst (specStackStep stack s))
       # specHierarchy sections pageTitle (specStackStep stack s)"

subsection \<open>Reading an ordinal back\<close>

text \<open>
  The number a string of decimal digits stands for, leading zeros ignored: the inverse
  of \<open>natToString\<close> and of the padded ordinal, used to show that different ordinals are
  written differently.
\<close>

definition digitsValue :: "string \<Rightarrow> nat" where
  "digitsValue s = foldl (\<lambda>acc c. acc * 10 + ((of_char c :: nat) - 48)) 0 s"

subsection \<open>White-space normalisation\<close>

text \<open>
  The words of a text are its maximal runs of code units that are not white space.
  Normalising the white space of a text replaces every run of white space inside it by
  one space and removes the runs at its two ends: the words, joined by single spaces.
  Two texts are equal up to white space when their normal forms are equal.
\<close>

fun wordsLoop :: "string \<Rightarrow> string \<Rightarrow> string list" where
  "wordsLoop cur [] = (if cur = [] then [] else [cur])"
| "wordsLoop cur (c # cs) =
     (if isWhiteSpace c then (if cur = [] then [] else [cur]) @ wordsLoop [] cs
      else wordsLoop (cur @ [c]) cs)"

definition wordsOf :: "string \<Rightarrow> string list" where
  "wordsOf s = wordsLoop [] s"

definition normalizeWhiteSpace :: "string \<Rightarrow> string" where
  "normalizeWhiteSpace s = join '' '' (wordsOf s)"

section \<open>Example inputs\<close>

text \<open>A page whose markdown is white space only.\<close>

definition blankPage :: CrawlResult where
  "blankPage =
     \<lparr>url = ''https://dev.clever.com/docs/blank'', path = ''/docs/blank'',
      sectionName = ''Guides'', title = ''Blank'', description = '''',
      markdown = [CHR 0x20, LF, CHR 0x09], discoveredPaths = [],
      crawledAt = ''2024-01-01T00:00:00.000Z'', fetchMethod = Static\<rparr>"

text \<open>
  A page of two sections, the second long enough (400 code units, 100 estimated tokens)
  not to be merged into the first.
\<close>

definition twoPage :: CrawlResult where
  "twoPage =
     \<lparr>url = ''https://dev.clever.com/docs/two'', path = ''/docs/two'',
      sectionName = ''Guides'', title = ''Two'', description = '''',
      markdown = ''# A'' @ [LF, LF] @ ''short'' @ [LF, LF] @ ''## B'' @ [LF, LF]
                 @ replicate 400 (CHR ''x''),
      discoveredPaths = [], crawledAt = ''2024-01-01T00:00:00.000Z'',
      fetchMethod = Static\<rparr>"

text \<open>
  Two small sections, as \<open>splitByHeadings\<close> leaves them for the markdown
  \<^verbatim>\<open># A\n\nshort\n\n## B\n\nshort\<close>.
\<close>

definition smallA :: Section where
  "smallA = \<lparr>heading = ''A'', headingLevel = 1, content = ''# A'' @ [LF, LF] @ ''short''\<rparr>"

definition smallB :: Section where
  "smallB = \<lparr>heading = ''B'', headingLevel = 2, content = ''## B'' @ [LF, LF] @ ''short''\<rparr>"

text \<open>
  The section that the split phase makes of a markdown without headings that holds two
  paragraphs of 3000 code units each (750 estimated tokens each), separated by one
  blank line: 6002 code units, 1501 estimated tokens.
\<close>

definition twoParagraphs :: Section where
  "twoParagraphs =
     \<lparr>heading = [], headingLevel = 0,
      content = replicate 3000 (CHR ''a'') @ [LF, LF] @ replicate 3000 (CHR ''b'')\<rparr>"

text \<open>
  An introduction before the first heading, a level-1 heading A, a level-3 heading under
  it, and a level-2 heading B after that.
\<close>

definition nestedSections :: "Section list" where
  "nestedSections =
     [\<lparr>heading = '''', headingLevel = 0, content = ''intro''\<rparr>,
      \<lparr>heading = ''A'', headingLevel = 1, content = ''# A''\<rparr>,
      \<lparr>heading = ''X'', headingLevel = 3, content = ''### X''\<rparr>,
      \<lparr>heading = ''B'', headingLevel = 2, content = ''## B''\<rparr>]"

text \<open>
  Two pages at different paths whose first heading, and so whose title, is the same;
  each has one paragraph of more than 120 code units.
\<close>

definition overviewA :: CrawlResult where
  "overviewA =
     \<lparr>url = ''https://dev.clever.com/docs/sso-overview'', path = ''/docs/sso-overview'',
      sectionName = ''Clever SSO'', title = ''Overview'', description = [],
      markdown = ''# Overview'' @ [LF, LF]
        @ ''Clever single sign-on lets students and teachers reach every application ''
        @ ''of their district with one login, from any device.'',
      discoveredPaths = [], crawledAt = ''2024-01-01T00:00:00.000Z'',
      fetchMethod = Static\<rparr>"

definition overviewB :: CrawlResult where
  "overviewB =
     \<lparr>url = ''https://dev.clever.com/docs/api-overview'', path = ''/docs/api-overview'',
      sectionName = ''APIs & Data Model'', title = ''Overview'', description = [],
      markdown = ''# Overview'' @ [LF, LF]
        @ ''The data API gives applications the districts, schools, sections, teachers ''
        @ ''and students that a district shares with them.'',
      discoveredPaths = [], crawledAt = ''2024-01-01T00:00:01.000Z'',
      fetchMethod = Static\<rparr>"

text \<open>
  Markdown with text before the first heading, runs of spaces inside the lines, a blank
  line and a heading line that ends in spaces:
  \<^verbatim>\<open>intro  text\n# A\n\nshort   body\n## B  \<close>.
\<close>

definition introMarkdown :: string where
  "introMarkdown =
     ''intro  text'' @ [LF] @ ''# A'' @ [LF, LF] @ ''short   body'' @ [LF] @ ''## B  ''"

text \<open>Markdown whose heading line follows a line of text: \<^verbatim>\<open>intro\n# A\<close>.\<close>

definition headingAfterText :: string where
  "headingAfterText = ''intro'' @ [LF] @ ''# A''"

text \<open>
  A page whose static document gives 40 code units of text (10 estimated tokens) and
  whose rendered document gives 2000 (500 estimated tokens); one link of each kind.
\<close>

definition thinDoc :: ParsedHtml where
  "thinDoc =
     \<lparr>h1Text = ''Districts'', titleText = ''Districts | Clever'',
      metaDescription = None, ogDescription = None,
      turndownOutput = replicate 40 (CHR ''x''),
      hrefs = [''/docs/schools'', ''/docs/schools?ref=nav'', ''/docs/terms#fields'',
               ''#top'', '''', ''https://clever.com/about'', ''/docs/users'']\<rparr>"

definition richDoc :: ParsedHtml where
  "richDoc = thinDoc\<lparr>turndownOutput := replicate 2000 (CHR ''x'')\<rparr>"

definition thinNetwork :: Network where
  "thinNetwork =
     \<lparr>staticResponse = Ok thinDoc, staticClock = ''2024-01-01T00:00:00.000Z'',
      newPageThrows = False, renderResponse = Rendered richDoc,
      renderClock = ''2024-01-01T00:00:03.000Z'', closeThrows = False\<rparr>"

text \<open>
  The same page without links, two seed tasks for its path from two sections, and the
  state in which the crawl of these seeds ends when one worker takes the first task,
  another takes the second and skips it, the first worker's fetch (threshold 200) comes
  back with the rendered result, and all five workers leave.
\<close>

definition leafNetwork :: Network where
  "leafNetwork =
     thinNetwork\<lparr>staticResponse := Ok (thinDoc\<lparr>hrefs := []\<rparr>),
                  renderResponse := Rendered (richDoc\<lparr>hrefs := []\<rparr>)\<rparr>"

definition sharedSeeds :: "Task list" where
  "sharedSeeds =
     [\<lparr>taskPath = ''/docs/districts'', taskSection = ''APIs & Data Model''\<rparr>,
      \<lparr>taskPath = ''/docs/districts'', taskSection = ''District Rostering (Secure Sync)''\<rparr>]"

definition sharedResult :: CrawlResult where
  "sharedResult =
     extractFromHtml (richDoc\<lparr>hrefs := []\<rparr>) (BASE_URL @ ''/docs/districts'')
       ''/docs/districts'' ''APIs & Data Model'' Playwright ''2024-01-01T00:00:03.000Z''"

definition sharedEnd :: CrawlState where
  "sharedEnd =
     \<lparr>queue = [],
      visited = {''/docs/districts''},
      results = [sharedResult],
      workers = [Exited, Exited, Exited, Exited, Exited],
      dequeued = sharedSeeds,
      fetched = [\<lparr>taskPath = ''/docs/districts'', taskSection = ''APIs & Data Model''\<rparr>],
      failures = []\<rparr>"

text \<open>A page whose markdown is those two paragraphs.\<close>

definition bigPage :: CrawlResult where
  "bigPage =
     \<lparr>url = ''https://dev.clever.com/docs/big'', path = ''/docs/big'',
      sectionName = ''Guides'', title = ''Big'', description = '''',
      markdown = replicate 3000 (CHR ''a'') @ [LF, LF] @ replicate 3000 (CHR ''b''),
      discoveredPaths = [], crawledAt = ''2024-01-01T00:00:00.000Z'',
      fetchMethod = Static\<rparr>"

text \<open>
  The page of the specification's merge scenario: \<^verbatim>\<open># A\n\nshort\n\n## B\n\nshort\<close>.
\<close>

definition scenarioPage :: CrawlResult where
  "scenarioPage =
     \<lparr>url = ''https://dev.clever.com/docs/a'', path = ''/docs/a'',
      sectionName = ''Guides'', title = ''A'', description = '''',
      markdown = ''# A'' @ [LF, LF] @ ''short'' @ [LF, LF] @ ''## B'' @ [LF, LF] @ ''short'',
      discoveredPaths = [], crawledAt = ''2024-01-01T00:00:00.000Z'',
      fetchMethod = Static\<rparr>"


section \<open>Properties of the chunker\<close>

subsection \<open>Trimming\<close>

lemma trim_Nil_iff: "trim s = [] \<longleftrightarrow> (\<forall>c\<in>set s. isWhiteSpace c)"
proof
  assume "trim s = []"
  then have "dropWhile isWhiteSpace (rev (dropWhile isWhiteSpace s)) = []"
    by (simp add: trim_def trimEnd_def trimStart_def)
  then have a: "\<forall>c\<in>set (dropWhile isWhiteSpace s). isWhiteSpace c"
    by (simp add: dropWhile_eq_Nil_conv)
  have "dropWhile isWhiteSpace s = []"
  proof (rule ccontr)
    assume n: "dropWhile isWhiteSpace s \<noteq> []"
    then have "\<not> isWhiteSpace (hd (dropWhile isWhiteSpace s))"
      by (rule hd_dropWhile)
    moreover have "hd (dropWhile isWhiteSpace s) \<in> set (dropWhile isWhiteSpace s)"
      using n by simp
    ultimately show False using a by blast
  qed
  then show "\<forall>c\<in>set s. isWhiteSpace c"
    by (simp add: dropWhile_eq_Nil_conv)
next
  assume "\<forall>c\<in>set s. isWhiteSpace c"
  then have d: "dropWhile isWhiteSpace s = []"
    by simp
  show "trim s = []"
    unfolding trim_def trimEnd_def trimStart_def d by simp
qed

subsection \<open>Pages without content\<close>

lemma chunkAll_append: "chunkAll (ps @ qs) = chunkAll ps @ chunkAll qs"
  by (simp add: chunkAll_def)

lemma chunkAll_Cons: "chunkAll (p # ps) = chunkPage p @ chunkAll ps"
  by (simp add: chunkAll_def)

text \<open>
  C10: a page whose markdown is empty or holds white space only gets no chunk from
  \<open>chunkPage\<close>, so \<open>chunkAll\<close> returns what it returns for the list without that page.
\<close>

theorem chunkPage_blank_markdown:
  assumes "\<forall>c\<in>set (markdown page). isWhiteSpace c"
  shows "chunkPage page = []
         \<and> chunkAll (before @ page # after) = chunkAll (before @ after)"
proof -
  from assms have "trim (markdown page) = []"
    by (simp add: trim_Nil_iff)
  then have "chunkPage page = []"
    by (simp add: chunkPage_def)
  then show ?thesis
    by (simp add: chunkAll_append chunkAll_Cons)
qed

theorem chunkPage_blank_markdown_witness:
  "chunkPage blankPage = []
   \<and> chunkAll ([twoPage] @ blankPage # [twoPage]) = chunkAll ([twoPage] @ [twoPage])"
proof -
  have "\<forall>c\<in>set (markdown blankPage). isWhiteSpace c"
    by (simp add: blankPage_def isWhiteSpace_def LF_def)
  then show ?thesis
    by (rule chunkPage_blank_markdown)
qed

subsection \<open>Chunk indices\<close>

lemma chunkPage_eq_map:
  "trim (markdown page) \<noteq> [] \<Longrightarrow>
   chunkPage page =
     map (makeChunk page (pageSlug page)
           (buildHeadingHierarchy (pageSections page) (title page))
           (length (pageSections page)))
       (enumerate 0 (pageSections page))"
  by (simp add: chunkPage_def Let_def)

lemma length_chunkPage:
  "length (chunkPage page) =
     (if trim (markdown page) = [] then 0 else length (pageSections page))"
  by (simp add: chunkPage_def Let_def)

lemma chunkIndex_makeChunk: "chunkIndex (makeChunk page slug hs n p) = fst p"
  by (cases p) (simp add: makeChunk_def)

lemma totalChunks_makeChunk: "totalChunks (makeChunk page slug hs n p) = n"
  by (cases p) (simp add: makeChunk_def)

lemma chunk_content_makeChunk: "chunk_content (makeChunk page slug hs n p) = content (snd p)"
  by (cases p) (simp add: makeChunk_def)

lemma chunkIndex_o_makeChunk: "chunkIndex \<circ> makeChunk page slug hs n = fst"
  by (rule ext) (simp add: chunkIndex_makeChunk)

lemma map_chunk_content_makeChunk:
  "map chunk_content (map (makeChunk page slug hs n) (enumerate k xs)) = map content xs"
  by (induction xs arbitrary: k) (simp_all add: chunk_content_makeChunk)

text \<open>
  C5: the \<open>chunkIndex\<close> values of a page's chunks are 0, 1, 2, ... in the order of the
  list, every chunk's \<open>totalChunks\<close> is the number of chunks of the page, and the chunks
  stand in the order of the sections left by the three phases (chunk \<open>i\<close> carries the
  content of section \<open>i\<close>).
\<close>

theorem chunkPage_index_dense:
  "map chunkIndex (chunkPage page) = [0..<length (chunkPage page)]
   \<and> (\<forall>c\<in>set (chunkPage page). totalChunks c = length (chunkPage page))
   \<and> (trim (markdown page) \<noteq> [] \<longrightarrow>
        map chunk_content (chunkPage page) = map content (pageSections page))"
proof (cases "trim (markdown page) = []")
  case True
  then show ?thesis by (simp add: chunkPage_def)
next
  case False
  note e = chunkPage_eq_map [OF False]
  have l: "length (chunkPage page) = length (pageSections page)"
    using False by (simp add: length_chunkPage)
  have 1: "map chunkIndex (chunkPage page) = [0..<length (chunkPage page)]"
    unfolding l unfolding e
    by (simp add: chunkIndex_o_makeChunk)
  have 2: "\<forall>c\<in>set (chunkPage page). totalChunks c = length (chunkPage page)"
    unfolding l unfolding e by (auto simp: totalChunks_makeChunk)
  have 3: "map chunk_content (chunkPage page) = map content (pageSections page)"
    unfolding e by (rule map_chunk_content_makeChunk)
  from 1 2 3 show ?thesis by simp
qed

lemma length_chunkPage_twoPage: "length (chunkPage twoPage) = 2"
  by code_simp

theorem chunkPage_index_dense_witness:
  "map chunkIndex (chunkPage twoPage) = [0, 1]
   \<and> map totalChunks (chunkPage twoPage) = [2, 2]
   \<and> map chunk_content (chunkPage twoPage) = map content (pageSections twoPage)"
proof -
  obtain a b where ab: "chunkPage twoPage = [a, b]"
    using length_chunkPage_twoPage
    by (auto simp: length_Suc_conv numeral_2_eq_2)
  have ne: "trim (markdown twoPage) \<noteq> []"
    using length_chunkPage_twoPage by (auto simp: length_chunkPage split: if_splits)
  have u: "[0..<2] = [0, Suc 0]"
    by (simp add: numeral_2_eq_2)
  show ?thesis
    using chunkPage_index_dense [of twoPage] ne
    by (simp add: ab u)
qed

subsection \<open>Split: reconstruction\<close>


lemma LF_isWhiteSpace: "isWhiteSpace LF"
  by (simp add: isWhiteSpace_def LF_def)

lemma splitOn_not_Nil: "splitOn sep s \<noteq> []"
  by (induction s) (auto split: list.splits)

lemma concat_splitOn: "concat (splitOn sep s) = filter (\<lambda>c. c \<noteq> sep) s"
proof (induction s)
  case Nil
  then show ?case by simp
next
  case (Cons c s)
  then show ?case
    using splitOn_not_Nil [of sep s] by (auto split: list.splits)
qed

lemma wordsLoop_sep:
  "isWhiteSpace w \<Longrightarrow> wordsLoop cur (a @ w # b) = wordsLoop cur a @ wordsLoop [] b"
  by (induction a arbitrary: cur) simp_all

lemma wordsLoop_white:
  "\<forall>c\<in>set ws. isWhiteSpace c \<Longrightarrow> wordsLoop [] ws = []"
  by (induction ws) simp_all

lemma wordsLoop_append_white:
  assumes "\<forall>c\<in>set ws. isWhiteSpace c"
  shows "wordsLoop cur (a @ ws) = wordsLoop cur a"
proof (cases ws)
  case Nil
  then show ?thesis by simp
next
  case (Cons w ws')
  then show ?thesis
    using assms wordsLoop_sep [of w cur a ws'] wordsLoop_white [of ws'] by simp
qed

lemma wordsOf_trimStart: "wordsOf (trimStart s) = wordsOf s"
  by (induction s) (simp_all add: wordsOf_def trimStart_def)

lemma wordsOf_trimEnd: "wordsOf (trimEnd s) = wordsOf s"
proof -
  have "rev (dropWhile isWhiteSpace (rev s)) @ rev (takeWhile isWhiteSpace (rev s))
      = rev (takeWhile isWhiteSpace (rev s) @ dropWhile isWhiteSpace (rev s))"
    by (simp only: rev_append)
  also have "\<dots> = s"
    by simp
  finally have s: "s = trimEnd s @ rev (takeWhile isWhiteSpace (rev s))"
    by (simp add: trimEnd_def)
  have w: "\<forall>c\<in>set (rev (takeWhile isWhiteSpace (rev s))). isWhiteSpace c"
    by (auto dest: set_takeWhileD)
  have "wordsLoop [] (trimEnd s @ rev (takeWhile isWhiteSpace (rev s))) = wordsLoop [] (trimEnd s)"
    using w by (rule wordsLoop_append_white)
  then show ?thesis
    using s by (simp add: wordsOf_def)
qed

lemma wordsOf_trim: "wordsOf (trim s) = wordsOf s"
  by (simp add: trim_def wordsOf_trimEnd wordsOf_trimStart)

lemma wordsOf_join: "wordsOf (join [LF] ls) = concat (map wordsOf ls)"
proof (induction "[LF]" ls rule: join.induct)
  case 1
  then show ?case by (simp add: wordsOf_def)
next
  case (2 p)
  then show ?case by simp
next
  case (3 p q ps)
  have "wordsLoop [] (p @ LF # join [LF] (q # ps)) = wordsLoop [] p @ wordsLoop [] (join [LF] (q # ps))"
    using LF_isWhiteSpace by (rule wordsLoop_sep)
  then show ?case
    using 3 by (simp add: wordsOf_def)
qed

lemma join_splitOn: "join [sep] (splitOn sep s) = s"
proof (induction s)
  case Nil
  then show ?case by simp
next
  case (Cons c s)
  show ?case
  proof (cases "splitOn sep s")
    case Nil
    then show ?thesis using splitOn_not_Nil [of sep s] by simp
  next
    case (Cons p ps)
    then show ?thesis
      using Cons.IH by (cases ps) auto
  qed
qed

lemma wordsOf_lines: "concat (map wordsOf (splitOn LF md)) = wordsOf md"
  using wordsOf_join [of "splitOn LF md"] by (simp add: join_splitOn)

lemma words_pushSection:
  "concat (map (\<lambda>s. wordsOf (content s)) (pushSection sections h l cur))
     = concat (map (\<lambda>s. wordsOf (content s)) sections) @ concat (map wordsOf cur)"
  by (simp add: pushSection_def wordsOf_trim wordsOf_join)

lemma words_splitLoop:
  "concat (map (\<lambda>s. wordsOf (content s)) (splitLoop lines sections h l cur))
     = concat (map (\<lambda>s. wordsOf (content s)) sections) @ concat (map wordsOf cur)
       @ concat (map wordsOf lines)"
proof (induction lines arbitrary: sections h l cur)
  case Nil
  then show ?case
    by (simp add: words_pushSection)
next
  case (Cons line lines)
  show ?case
  proof (cases "headingMatch line")
    case None
    then show ?thesis
      by (simp add: Cons.IH)
  next
    case (Some p)
    obtain hashes grp where p: "p = (hashes, grp)" by (cases p)
    show ?thesis
      by (simp add: Some p Cons.IH words_pushSection)
  qed
qed

lemma splitByHeadings_words:
  "wordsOf (join [LF] (map content (splitByHeadings md))) = wordsOf md"
proof -
  have "wordsOf (join [LF] (map content (splitByHeadings md)))
      = concat (map (\<lambda>s. wordsOf (content s)) (splitByHeadings md))"
    by (simp add: wordsOf_join comp_def)
  also have "\<dots> = concat (map wordsOf (splitOn LF md))"
    by (simp add: splitByHeadings_def words_splitLoop)
  finally show ?thesis
    by (simp only: wordsOf_lines)
qed

lemma splitByHeadings_normalized:
  "normalizeWhiteSpace (join [LF] (map content (splitByHeadings md))) = normalizeWhiteSpace md"
  by (simp add: normalizeWhiteSpace_def splitByHeadings_words)


lemma pushSection_acc: "pushSection sections h l cur = sections @ pushSection [] h l cur"
  by (simp add: pushSection_def)

lemma splitLoop_acc:
  "splitLoop lines sections h l cur = sections @ splitLoop lines [] h l cur"
proof (induction lines arbitrary: sections h l cur)
  case Nil
  then show ?case by (simp add: pushSection_def)
next
  case (Cons line lines)
  show ?case
  proof (cases "headingMatch line")
    case None
    then show ?thesis
      using Cons.IH [of sections h l "cur @ [line]"] by simp
  next
    case (Some p)
    obtain hashes grp where p: "p = (hashes, grp)" by (cases p)
    have "splitLoop (line # lines) sections h l cur
        = pushSection sections h l cur @ splitLoop lines [] (trim grp) (length hashes) [line]"
      using Cons.IH [of "pushSection sections h l cur"] by (simp add: Some p)
    moreover have "splitLoop (line # lines) [] h l cur
        = pushSection [] h l cur @ splitLoop lines [] (trim grp) (length hashes) [line]"
      using Cons.IH [of "pushSection [] h l cur"] by (simp add: Some p)
    ultimately show ?thesis
      using pushSection_acc [of sections h l cur] by simp
  qed
qed

lemma splitLoop_heading:
  "headingMatch line = Some (hashes, grp) \<Longrightarrow>
   splitLoop (line # lines) [] h l cur
     = pushSection [] h l cur @ splitLoop lines [] (trim grp) (length hashes) [line]"
  using splitLoop_acc [of lines "pushSection [] h l cur"] by simp

lemma headingMatch_level:
  assumes "headingMatch line = Some (hashes, grp)"
  shows "1 \<le> length hashes \<and> length hashes \<le> 6"
  using assms by (auto simp: headingMatch_def Let_def split: if_splits)

lemma headingMatch_hash:
  assumes "headingMatch line = Some (hashes, grp)"
  shows "\<exists>r. line = CHR ''#'' # r"
proof -
  have "takeWhile (\<lambda>c. c = CHR ''#'') line \<noteq> []"
    using assms by (auto simp: headingMatch_def Let_def split: if_splits)
  then show ?thesis
    by (cases line) (auto split: if_splits)
qed

lemma hash_not_white: "\<not> isWhiteSpace (CHR ''#'')"
  by (simp add: isWhiteSpace_def)

lemma prefix_trimEnd_self: "prefix (trimEnd a) a"
proof -
  have "suffix (dropWhile isWhiteSpace (rev a)) (rev a)"
    by (rule suffix_dropWhile)
  then have "prefix (rev (dropWhile isWhiteSpace (rev a))) (rev (rev a))"
    by (simp only: suffix_to_prefix)
  then show ?thesis
    by (simp add: trimEnd_def)
qed

lemma prefix_trimEnd_append: "prefix (trimEnd a) (trimEnd (a @ b))"
proof (cases "\<forall>c\<in>set b. isWhiteSpace c")
  case True
  then have "dropWhile isWhiteSpace (rev b @ rev a) = dropWhile isWhiteSpace (rev a)"
    by (intro dropWhile_append2) simp
  then have "trimEnd (a @ b) = trimEnd a"
    by (simp add: trimEnd_def)
  then show ?thesis by simp
next
  case False
  then obtain c where "c \<in> set (rev b)" and "\<not> isWhiteSpace c"
    by auto
  then have "dropWhile isWhiteSpace (rev b @ rev a) = dropWhile isWhiteSpace (rev b) @ rev a"
    by (rule dropWhile_append1)
  then have "trimEnd (a @ b) = a @ trimEnd b"
    by (simp add: trimEnd_def)
  then show ?thesis
    using prefix_trimEnd_self [of a] by simp
qed

lemma join_Cons: "\<exists>r. join sep (line # rest) = line @ r"
  by (cases rest) simp_all

lemma prefix_heading_content:
  assumes "headingMatch line = Some (hashes, grp)"
  shows "prefix (trimEnd line) (trim (join [LF] (line # rest)))"
proof -
  obtain r where r: "join [LF] (line # rest) = line @ r"
    using join_Cons by blast
  obtain q where q: "line = CHR ''#'' # q"
    using headingMatch_hash [OF assms] by blast
  have "trimStart (line @ r) = line @ r"
    by (simp add: trimStart_def q hash_not_white)
  then have "trim (join [LF] (line # rest)) = trimEnd (line @ r)"
    by (simp add: trim_def r)
  then show ?thesis
    by (simp add: prefix_trimEnd_append)
qed

lemma retained_pushSection:
  assumes "l = 0 \<or> (\<exists>line rest hashes grp. cur = line # rest \<and> line \<in> L
              \<and> headingMatch line = Some (hashes, grp) \<and> l = length hashes \<and> h = trim grp)"
  shows "\<forall>s\<in>set (pushSection [] h l cur). 0 < headingLevel s \<longrightarrow>
           (\<exists>line hashes grp. line \<in> L \<and> headingMatch line = Some (hashes, grp)
              \<and> headingLevel s = length hashes \<and> heading s = trim grp
              \<and> prefix (trimEnd line) (content s))"
proof (cases "l = 0 \<or> cur = []")
  case True
  then show ?thesis by (auto simp: pushSection_def)
next
  case False
  with assms obtain line rest hashes grp where c: "cur = line # rest" and "line \<in> L"
    and "headingMatch line = Some (hashes, grp)" and "l = length hashes" and "h = trim grp"
    by auto
  moreover have "prefix (trimEnd line) (trim (join [LF] (line # rest)))"
    using calculation(3) by (rule prefix_heading_content)
  ultimately show ?thesis
    by (auto simp: pushSection_def)
qed

lemma retained_splitLoop:
  assumes "l = 0 \<or> (\<exists>line rest hashes grp. cur = line # rest \<and> line \<in> L
              \<and> headingMatch line = Some (hashes, grp) \<and> l = length hashes \<and> h = trim grp)"
    and "set lines \<subseteq> L"
  shows "\<forall>s\<in>set (splitLoop lines [] h l cur). 0 < headingLevel s \<longrightarrow>
           (\<exists>line hashes grp. line \<in> L \<and> headingMatch line = Some (hashes, grp)
              \<and> headingLevel s = length hashes \<and> heading s = trim grp
              \<and> prefix (trimEnd line) (content s))"
  using assms
proof (induction lines arbitrary: h l cur)
  case Nil
  then show ?case
    using retained_pushSection [of l cur L h] by simp
next
  case (Cons x lines)
  have sub: "set lines \<subseteq> L" and xL: "x \<in> L"
    using Cons.prems(2) by auto
  show ?case
  proof (cases "headingMatch x")
    case None
    have "l = 0 \<or> (\<exists>line rest hashes grp. cur @ [x] = line # rest \<and> line \<in> L
              \<and> headingMatch line = Some (hashes, grp) \<and> l = length hashes \<and> h = trim grp)"
      using Cons.prems(1) by auto
    then show ?thesis
      using Cons.IH [OF _ sub, of l "cur @ [x]" h] None by simp
  next
    case (Some p)
    obtain hashes grp where p: "p = (hashes, grp)" by (cases p)
    have hm: "headingMatch x = Some (hashes, grp)"
      using Some p by simp
    have pend: "length hashes = 0 \<or> (\<exists>line rest hs g. [x] = line # rest \<and> line \<in> L
              \<and> headingMatch line = Some (hs, g) \<and> length hashes = length hs \<and> trim grp = trim g)"
      using hm xL by auto
    have 1: "\<forall>s\<in>set (splitLoop lines [] (trim grp) (length hashes) [x]). 0 < headingLevel s \<longrightarrow>
           (\<exists>line hashes grp. line \<in> L \<and> headingMatch line = Some (hashes, grp)
              \<and> headingLevel s = length hashes \<and> heading s = trim grp
              \<and> prefix (trimEnd line) (content s))"
      by (rule Cons.IH [OF pend sub])
    have 2: "\<forall>s\<in>set (pushSection [] h l cur). 0 < headingLevel s \<longrightarrow>
           (\<exists>line hashes grp. line \<in> L \<and> headingMatch line = Some (hashes, grp)
              \<and> headingLevel s = length hashes \<and> heading s = trim grp
              \<and> prefix (trimEnd line) (content s))"
      by (rule retained_pushSection [OF Cons.prems(1)])
    show ?thesis
      unfolding splitLoop_heading [OF hm] using 1 2 by (simp only: set_append) blast
  qed
qed

lemma splitLoop_nonheading:
  "\<forall>x\<in>set pre. headingMatch x = None \<Longrightarrow>
   splitLoop (pre @ rest) sections h l cur = splitLoop rest sections h l (cur @ pre)"
  by (induction pre arbitrary: cur) simp_all

lemma levels_splitLoop:
  "\<forall>s\<in>set (splitLoop lines [] h l cur).
     headingLevel s = l \<or> (1 \<le> headingLevel s \<and> headingLevel s \<le> 6)"
proof (induction lines arbitrary: h l cur)
  case Nil
  then show ?case by (simp add: pushSection_def)
next
  case (Cons x lines)
  show ?case
  proof (cases "headingMatch x")
    case None
    then show ?thesis using Cons.IH [of h l "cur @ [x]"] by simp
  next
    case (Some p)
    obtain hashes grp where p: "p = (hashes, grp)" by (cases p)
    have hm: "headingMatch x = Some (hashes, grp)"
      using Some p by simp
    have lv: "1 \<le> length hashes \<and> length hashes \<le> 6"
      using hm by (rule headingMatch_level)
    have "\<forall>s\<in>set (splitLoop lines [] (trim grp) (length hashes) [x]).
        1 \<le> headingLevel s \<and> headingLevel s \<le> 6"
      using Cons.IH [of "trim grp" "length hashes" "[x]"] lv by auto
    moreover have "\<forall>s\<in>set (pushSection [] h l cur). headingLevel s = l"
      by (simp add: pushSection_def)
    ultimately show ?thesis
      unfolding splitLoop_heading [OF hm] by (simp only: set_append) blast
  qed
qed

lemma splitByHeadings_intro:
  fixes md :: string
  defines "pre \<equiv> takeWhile (\<lambda>x. headingMatch x = None) (splitOn LF md)"
  shows "\<exists>later. splitByHeadings md
           = (if pre = [] then []
              else [\<lparr>heading = [], headingLevel = 0, content = trim (join [LF] pre)\<rparr>]) @ later
         \<and> (\<forall>s\<in>set later. 1 \<le> headingLevel s \<and> headingLevel s \<le> 6)"
proof -
  define rest where "rest = dropWhile (\<lambda>x. headingMatch x = None) (splitOn LF md)"
  have lines: "splitOn LF md = pre @ rest"
    by (simp add: pre_def rest_def)
  have np: "\<forall>x\<in>set pre. headingMatch x = None"
    unfolding pre_def by (auto dest: set_takeWhileD)
  have e: "splitByHeadings md = splitLoop rest [] [] 0 pre"
    unfolding splitByHeadings_def lines using splitLoop_nonheading [OF np, of rest "[]" "[]" 0 "[]"]
    by simp
  have ps: "pushSection [] [] 0 pre
      = (if pre = [] then []
         else [\<lparr>heading = [], headingLevel = 0, content = trim (join [LF] pre)\<rparr>])"
    by (simp add: pushSection_def)
  show ?thesis
  proof (cases rest)
    case Nil
    then have "splitByHeadings md = pushSection [] [] 0 pre @ []"
      using e by simp
    then show ?thesis
      unfolding ps by (intro exI [of _ "[]"]) simp
  next
    case (Cons x rest')
    have "rest \<noteq> []" using Cons by simp
    then have "headingMatch (hd rest) \<noteq> None"
      unfolding rest_def by (rule hd_dropWhile)
    then obtain hashes grp where hm: "headingMatch x = Some (hashes, grp)"
      using Cons by auto
    have lv: "1 \<le> length hashes \<and> length hashes \<le> 6"
      using hm by (rule headingMatch_level)
    let ?later = "splitLoop rest' [] (trim grp) (length hashes) [x]"
    have "splitByHeadings md = pushSection [] [] 0 pre @ ?later"
      unfolding e Cons by (rule splitLoop_heading [OF hm])
    moreover have "\<forall>s\<in>set ?later. 1 \<le> headingLevel s \<and> headingLevel s \<le> 6"
      using levels_splitLoop [of rest' "trim grp" "length hashes" "[x]"] lv by auto
    ultimately show ?thesis
      unfolding ps by (intro exI [of _ ?later]) simp
  qed
qed

text \<open>
  C4: the contents of the sections, joined in order with a line feed between them, are
  the markdown up to white space: both have the same normal form. Every section of a
  heading level above 0 comes from a heading line of the markdown (a line that the
  heading pattern matches, with the section's level and heading) and its content starts
  with that line, up to the line's trailing white space. The lines before the first
  heading line, when there are any, make the first section, of level 0 with the empty
  heading, while every later section has a level from 1 to 6.
\<close>

theorem splitByHeadings_reconstructs:
  "normalizeWhiteSpace (join [LF] (map content (splitByHeadings md))) = normalizeWhiteSpace md
   \<and> (\<forall>s\<in>set (splitByHeadings md). 0 < headingLevel s \<longrightarrow>
         (\<exists>line hashes grp. line \<in> set (splitOn LF md)
            \<and> headingMatch line = Some (hashes, grp)
            \<and> headingLevel s = length hashes \<and> heading s = trim grp
            \<and> prefix (trimEnd line) (content s)))
   \<and> (\<exists>later. splitByHeadings md
           = (if takeWhile (\<lambda>x. headingMatch x = None) (splitOn LF md) = [] then []
              else [\<lparr>heading = [], headingLevel = 0,
                      content = trim (join [LF]
                        (takeWhile (\<lambda>x. headingMatch x = None) (splitOn LF md)))\<rparr>]) @ later
         \<and> (\<forall>s\<in>set later. 1 \<le> headingLevel s \<and> headingLevel s \<le> 6))"
proof (intro conjI)
  show "normalizeWhiteSpace (join [LF] (map content (splitByHeadings md)))
      = normalizeWhiteSpace md"
    by (rule splitByHeadings_normalized)
next
  have "(0::nat) = 0 \<or> (\<exists>line rest hashes grp. [] = line # rest \<and> line \<in> set (splitOn LF md)
              \<and> headingMatch line = Some (hashes, grp) \<and> 0 = length hashes \<and> [] = trim grp)"
    by simp
  then show "\<forall>s\<in>set (splitByHeadings md). 0 < headingLevel s \<longrightarrow>
         (\<exists>line hashes grp. line \<in> set (splitOn LF md)
            \<and> headingMatch line = Some (hashes, grp)
            \<and> headingLevel s = length hashes \<and> heading s = trim grp
            \<and> prefix (trimEnd line) (content s))"
    unfolding splitByHeadings_def by (rule retained_splitLoop) simp
next
  show "\<exists>later. splitByHeadings md
           = (if takeWhile (\<lambda>x. headingMatch x = None) (splitOn LF md) = [] then []
              else [\<lparr>heading = [], headingLevel = 0,
                      content = trim (join [LF]
                        (takeWhile (\<lambda>x. headingMatch x = None) (splitOn LF md)))\<rparr>]) @ later
         \<and> (\<forall>s\<in>set later. 1 \<le> headingLevel s \<and> headingLevel s \<le> 6)"
    by (rule splitByHeadings_intro)
qed



lemma splitByHeadings_introMarkdown:
  "splitByHeadings introMarkdown =
     [\<lparr>heading = [], headingLevel = 0, content = ''intro  text''\<rparr>,
      \<lparr>heading = ''A'', headingLevel = 1,
        content = ''# A'' @ [LF, LF] @ ''short   body''\<rparr>,
      \<lparr>heading = ''B'', headingLevel = 2, content = ''## B''\<rparr>]"
  by code_simp

lemma normalForm_introMarkdown:
  "normalizeWhiteSpace introMarkdown = ''intro text # A short body ## B''"
  by code_simp

theorem splitByHeadings_reconstructs_witness:
  "normalizeWhiteSpace (join [LF] (map content (splitByHeadings introMarkdown)))
     = ''intro text # A short body ## B''
   \<and> splitByHeadings introMarkdown =
     [\<lparr>heading = [], headingLevel = 0, content = ''intro  text''\<rparr>,
      \<lparr>heading = ''A'', headingLevel = 1,
        content = ''# A'' @ [LF, LF] @ ''short   body''\<rparr>,
      \<lparr>heading = ''B'', headingLevel = 2, content = ''## B''\<rparr>]
   \<and> (\<exists>line hashes grp. line \<in> set (splitOn LF introMarkdown)
          \<and> headingMatch line = Some (hashes, grp)
          \<and> 2 = length hashes \<and> ''B'' = trim grp \<and> prefix (trimEnd line) ''## B'')"
proof -
  note T = splitByHeadings_reconstructs [of introMarkdown]
  let ?b = "\<lparr>heading = ''B'', headingLevel = 2, content = ''## B''\<rparr>"
  from T have "normalizeWhiteSpace (join [LF] (map content (splitByHeadings introMarkdown)))
     = normalizeWhiteSpace introMarkdown"
    by (rule conjunct1)
  then have c1: "normalizeWhiteSpace (join [LF] (map content (splitByHeadings introMarkdown)))
     = ''intro text # A short body ## B''"
    by (simp only: normalForm_introMarkdown)
  have m: "?b \<in> set (splitByHeadings introMarkdown)"
    by (simp add: splitByHeadings_introMarkdown)
  have p: "0 < headingLevel ?b"
    by simp
  from T have "\<forall>s\<in>set (splitByHeadings introMarkdown). 0 < headingLevel s \<longrightarrow>
         (\<exists>line hashes grp. line \<in> set (splitOn LF introMarkdown)
            \<and> headingMatch line = Some (hashes, grp)
            \<and> headingLevel s = length hashes \<and> heading s = trim grp
            \<and> prefix (trimEnd line) (content s))"
    by blast
  from this m p have "\<exists>line hashes grp. line \<in> set (splitOn LF introMarkdown)
            \<and> headingMatch line = Some (hashes, grp)
            \<and> headingLevel ?b = length hashes \<and> heading ?b = trim grp
            \<and> prefix (trimEnd line) (content ?b)"
    by blast
  then have c3: "\<exists>line hashes grp. line \<in> set (splitOn LF introMarkdown)
          \<and> headingMatch line = Some (hashes, grp)
          \<and> 2 = length hashes \<and> ''B'' = trim grp \<and> prefix (trimEnd line) ''## B''"
    by simp
  from c1 splitByHeadings_introMarkdown c3 show ?thesis
    by (intro conjI)
qed

text \<open>
  Without the line feeds between them the contents do not give the markdown back, not
  even up to white space: in \<open>headingAfterText\<close> the heading line follows a line of text,
  the two lines make two sections, and their contents put end to end glue the last word
  of the first to the hashes of the second.
\<close>

theorem splitByHeadings_concat_counterexample:
  "map content (splitByHeadings headingAfterText) = [''intro'', ''# A'']
   \<and> normalizeWhiteSpace (concat (map content (splitByHeadings headingAfterText)))
       = ''intro# A''
   \<and> normalizeWhiteSpace headingAfterText = ''intro # A''
   \<and> normalizeWhiteSpace (concat (map content (splitByHeadings headingAfterText)))
       \<noteq> normalizeWhiteSpace headingAfterText"
proof -
  have 1: "map content (splitByHeadings headingAfterText) = [''intro'', ''# A'']"
    by code_simp
  have 2: "normalizeWhiteSpace (concat (map content (splitByHeadings headingAfterText)))
       = ''intro# A''"
    by code_simp
  have 3: "normalizeWhiteSpace headingAfterText = ''intro # A''"
    by code_simp
  have 4: "normalizeWhiteSpace (concat (map content (splitByHeadings headingAfterText)))
       \<noteq> normalizeWhiteSpace headingAfterText"
    unfolding 2 3 by simp
  from 1 2 3 4 show ?thesis
    by (intro conjI)
qed

subsection \<open>Merge small\<close>


lemma estimateTokens_merged:
  "estimateTokens (a @ [LF, LF] @ b) \<le> estimateTokens a + estimateTokens b + 1"
  by (simp add: estimateTokens_def)

lemma mergeLoop_snoc:
  "mergeLoop merged (sections @ [s]) = mergeLoop (mergeLoop merged sections) [s]"
  by (induction sections arbitrary: merged) (simp_all add: Let_def)

lemma mergeLoop_bounded:
  assumes "\<forall>s\<in>set merged. estimateTokens (content s) \<le> MAX_CHUNK_TOKENS"
    and "\<forall>s\<in>set sections. estimateTokens (content s) \<le> MAX_CHUNK_TOKENS"
  shows "\<forall>s\<in>set (mergeLoop merged sections). estimateTokens (content s) \<le> MAX_CHUNK_TOKENS"
  using assms
proof (induction sections arbitrary: merged)
  case Nil
  then show ?case by simp
next
  case (Cons s sections)
  let ?tokens = "estimateTokens (content s)"
  let ?absorb = "merged \<noteq> [] \<and> ?tokens < MIN_CHUNK_TOKENS
            \<and> estimateTokens (content (last merged)) + ?tokens < MAX_CHUNK_TOKENS"
  let ?grown = "butlast merged @
                   [(last merged)\<lparr>content := content (last merged) @ [LF, LF] @ content s\<rparr>]"
  show ?case
  proof (cases ?absorb)
    case True
    have "estimateTokens (content (last merged) @ [LF, LF] @ content s) \<le> MAX_CHUNK_TOKENS"
      using True estimateTokens_merged [of "content (last merged)" "content s"] by linarith
    moreover have "\<forall>x\<in>set (butlast merged). estimateTokens (content x) \<le> MAX_CHUNK_TOKENS"
      using Cons.prems(1) by (meson in_set_butlastD)
    ultimately have g: "\<forall>x\<in>set ?grown. estimateTokens (content x) \<le> MAX_CHUNK_TOKENS"
      by auto
    have r: "\<forall>x\<in>set sections. estimateTokens (content x) \<le> MAX_CHUNK_TOKENS"
      using Cons.prems(2) by simp
    have "mergeLoop merged (s # sections) = mergeLoop ?grown sections"
      using True by (simp add: Let_def)
    then show ?thesis
      using Cons.IH [OF g r] by simp
  next
    case False
    have g: "\<forall>x\<in>set (merged @ [s]). estimateTokens (content x) \<le> MAX_CHUNK_TOKENS"
      using Cons.prems by auto
    have r: "\<forall>x\<in>set sections. estimateTokens (content x) \<le> MAX_CHUNK_TOKENS"
      using Cons.prems(2) by simp
    have "mergeLoop merged (s # sections) = mergeLoop (merged @ [s]) sections"
      using False by (auto simp: Let_def)
    then show ?thesis
      using Cons.IH [OF g r] by simp
  qed
qed

text \<open>
  C2: when no input section is estimated above \<open>MAX_CHUNK_TOKENS\<close>, no section that
  \<open>mergeSections\<close> returns is; and a section is absorbed into the last section merged so
  far exactly when there is one, the section is estimated below \<open>MIN_CHUNK_TOKENS\<close> and
  the two estimates together stay below \<open>MAX_CHUNK_TOKENS\<close>; otherwise it is appended
  as it is.
\<close>

theorem mergeSections_bounded:
  assumes "\<forall>s\<in>set sections. estimateTokens (content s) \<le> MAX_CHUNK_TOKENS"
  shows "(\<forall>s\<in>set (mergeSections sections). estimateTokens (content s) \<le> MAX_CHUNK_TOKENS)
     \<and> mergeSections (pre @ [s]) =
         (if mergeSections pre \<noteq> [] \<and> estimateTokens (content s) < MIN_CHUNK_TOKENS
             \<and> estimateTokens (content (last (mergeSections pre))) + estimateTokens (content s)
                 < MAX_CHUNK_TOKENS
          then butlast (mergeSections pre) @
                 [(last (mergeSections pre))
                    \<lparr>content := content (last (mergeSections pre)) @ [LF, LF] @ content s\<rparr>]
          else mergeSections pre @ [s])"
proof -
  have "\<forall>s\<in>set (mergeLoop [] sections). estimateTokens (content s) \<le> MAX_CHUNK_TOKENS"
    using assms by (intro mergeLoop_bounded) simp_all
  moreover have "mergeLoop [] (pre @ [s]) = mergeLoop (mergeLoop [] pre) [s]"
    by (rule mergeLoop_snoc)
  ultimately show ?thesis
    by (simp add: mergeSections_def Let_def)
qed


theorem mergeSections_bounded_witness:
  "estimateTokens (content smallA) \<le> MAX_CHUNK_TOKENS
   \<and> estimateTokens (content smallB) \<le> MAX_CHUNK_TOKENS
   \<and> list_all (\<lambda>s. estimateTokens (content s) \<le> MAX_CHUNK_TOKENS)
         (mergeSections [smallA, smallB])
   \<and> mergeSections ([smallA] @ [smallB]) =
         [smallA\<lparr>content := content smallA @ [LF, LF] @ content smallB\<rparr>]"
proof -
  have a: "estimateTokens (content smallA) \<le> MAX_CHUNK_TOKENS"
    by (simp add: smallA_def estimateTokens_def MAX_CHUNK_TOKENS_def)
  have b: "estimateTokens (content smallB) \<le> MAX_CHUNK_TOKENS"
    by (simp add: smallB_def estimateTokens_def MAX_CHUNK_TOKENS_def)
  have h: "\<forall>s\<in>set [smallA, smallB]. estimateTokens (content s) \<le> MAX_CHUNK_TOKENS"
    using a b by simp
  have m: "mergeSections [smallA] = [smallA]"
    by (simp add: mergeSections_def)
  have t: "estimateTokens (content smallB) < MIN_CHUNK_TOKENS
           \<and> estimateTokens (content smallA) + estimateTokens (content smallB) < MAX_CHUNK_TOKENS"
    by (simp add: smallA_def smallB_def estimateTokens_def MAX_CHUNK_TOKENS_def
        MIN_CHUNK_TOKENS_def)
  note T = mergeSections_bounded [OF h, of "[smallA]" smallB]
  from T have "\<forall>s\<in>set (mergeSections [smallA, smallB]).
      estimateTokens (content s) \<le> MAX_CHUNK_TOKENS"
    by (rule conjunct1)
  then have l: "list_all (\<lambda>s. estimateTokens (content s) \<le> MAX_CHUNK_TOKENS)
         (mergeSections [smallA, smallB])"
    by (simp only: list_all_iff)
  from T have e: "mergeSections ([smallA] @ [smallB]) =
         [smallA\<lparr>content := content smallA @ [LF, LF] @ content smallB\<rparr>]"
    using t by (simp add: m)
  from a b l e show ?thesis
    by (intro conjI)
qed

subsection \<open>Split large\<close>

lemma splitParagraphs_no_LF: "LF \<notin> set p \<Longrightarrow> splitParagraphs p = [p]"
proof (induction p rule: splitParagraphs.induct)
  case 1
  then show ?case by simp
next
  case (2 c)
  then show ?case by simp
next
  case (3 c d ds)
  then show ?case by auto
qed

lemma splitParagraphs_cut:
  assumes "LF \<notin> set p" and "q = [] \<or> hd q \<noteq> LF"
  shows "splitParagraphs (p @ LF # LF # q) = p # splitParagraphs q"
  using assms
proof (induction p)
  case Nil
  from Nil(2) have "dropWhile (\<lambda>x. x = LF) q = q"
    by (cases q) simp_all
  then show ?case by simp
next
  case (Cons c p)
  obtain d ds where e: "p @ LF # LF # q = d # ds"
    by (cases "p @ LF # LF # q") simp_all
  have "c \<noteq> LF" using Cons.prems(1) by auto
  then have "splitParagraphs (c # d # ds) =
      (case splitParagraphs (d # ds) of [] \<Rightarrow> [[c]] | r # rs \<Rightarrow> (c # r) # rs)"
    by simp
  moreover have "splitParagraphs (d # ds) = p # splitParagraphs q"
    using Cons e by simp
  ultimately show ?case
    using e by simp
qed



lemma splitOn_no_sep: "sep \<notin> set p \<Longrightarrow> splitOn sep p = [p]"
  by (induction p) auto

lemma splitOn_cut: "sep \<notin> set p \<Longrightarrow> splitOn sep (p @ sep # q) = p # splitOn sep q"
  by (induction p) auto

lemma headingMatch_no_hash: "line = [] \<or> hd line \<noteq> CHR ''#'' \<Longrightarrow> headingMatch line = None"
  by (cases line) (simp_all add: headingMatch_def)

lemma trim_unchanged:
  assumes "s \<noteq> []" and "\<not> isWhiteSpace (hd s)" and "\<not> isWhiteSpace (last s)"
  shows "trim s = s"
proof -
  have 1: "dropWhile isWhiteSpace s = s"
    using assms(1,2) by (cases s) simp_all
  have "rev s \<noteq> []" and "\<not> isWhiteSpace (hd (rev s))"
    using assms(1,3) by (simp_all add: hd_rev)
  then have 2: "dropWhile isWhiteSpace (rev s) = rev s"
    by (cases "rev s") simp_all
  show ?thesis
    by (simp add: trim_def trimStart_def trimEnd_def 1 2)
qed

lemma splitByHeadings_twoParagraphs: "splitByHeadings (content twoParagraphs) = [twoParagraphs]"
proof -
  let ?A = "replicate 3000 (CHR ''a'')" and ?B = "replicate 3000 (CHR ''b'')"
  have a: "LF \<notin> set ?A" and b: "LF \<notin> set ?B"
    by (simp_all add: LF_def)
  have c: "content twoParagraphs = ?A @ LF # LF # ?B"
    by (simp add: twoParagraphs_def)
  have "splitOn LF (?A @ LF # LF # ?B) = ?A # splitOn LF (LF # ?B)"
    using a by (rule splitOn_cut)
  also have "splitOn LF (LF # ?B) = [] # splitOn LF ?B"
    by simp
  also have "splitOn LF ?B = [?B]"
    using b by (rule splitOn_no_sep)
  finally have lines: "splitOn LF (content twoParagraphs) = [?A, [], ?B]"
    by (simp only: c)
  have hA: "headingMatch ?A = None"
    by (rule headingMatch_no_hash) (simp add: hd_replicate)
  have hB: "headingMatch ?B = None"
    by (rule headingMatch_no_hash) (simp add: hd_replicate)
  have hE: "headingMatch [] = None"
    by (rule headingMatch_no_hash) simp
  have j: "join [LF] [?A, [], ?B] = content twoParagraphs"
    by (simp add: c)
  have t: "trim (content twoParagraphs) = content twoParagraphs"
  proof (rule trim_unchanged)
    show "content twoParagraphs \<noteq> []"
      by (simp add: c)
    show "\<not> isWhiteSpace (hd (content twoParagraphs))"
      by (simp add: c hd_append hd_replicate isWhiteSpace_def)
    show "\<not> isWhiteSpace (last (content twoParagraphs))"
      by (simp add: c isWhiteSpace_def)
  qed
  have "splitLoop [?A, [], ?B] [] [] 0 [] = pushSection [] [] 0 [?A, [], ?B]"
    by (simp add: hA hB hE)
  also have "\<dots> = [\<lparr>heading = [], headingLevel = 0, content = content twoParagraphs\<rparr>]"
    unfolding pushSection_def by (simp only: j t) simp
  also have "\<dots> = [twoParagraphs]"
    by (simp add: twoParagraphs_def)
  finally show ?thesis
    by (simp only: splitByHeadings_def lines)
qed


lemma tokenEstimate_makeChunk:
  "tokenEstimate (makeChunk page slug hs n p) = estimateTokens (content (snd p))"
  by (cases p) (simp add: makeChunk_def)

lemma estimateTokens_twoParagraphs: "estimateTokens (content twoParagraphs) = 1501"
  by (simp add: twoParagraphs_def estimateTokens_def)

lemma splitParagraphs_twoParagraphs:
  "splitParagraphs (content twoParagraphs)
     = [replicate 3000 (CHR ''a''), replicate 3000 (CHR ''b'')]"
proof -
  have a: "LF \<notin> set (replicate 3000 (CHR ''a''))"
    by (simp add: LF_def)
  have b: "LF \<notin> set (replicate 3000 (CHR ''b''))"
    by (simp add: LF_def)
  have h: "replicate 3000 (CHR ''b'') = [] \<or> hd (replicate 3000 (CHR ''b'')) \<noteq> LF"
    by (simp add: LF_def)
  show ?thesis
    using splitParagraphs_cut [OF a h] splitParagraphs_no_LF [OF b]
    by (simp add: twoParagraphs_def)
qed

lemma splitLargeSection_twoParagraphs: "splitLargeSection twoParagraphs = [twoParagraphs]"
proof -
  have "packLoop twoParagraphs [replicate 3000 (CHR ''a''), replicate 3000 (CHR ''b'')] [] [] 0
          = [twoParagraphs]"
    by (simp add: estimateTokens_def MAX_CHUNK_TOKENS_def pieceOf_def twoParagraphs_def)
  then show ?thesis
    by (simp add: splitLargeSection_def estimateTokens_twoParagraphs
        splitParagraphs_twoParagraphs MAX_CHUNK_TOKENS_def)
qed

text \<open>
  C1, at the page \<open>bigPage\<close>: the split phase makes one section of its markdown,
  \<open>twoParagraphs\<close>, whose estimate 1501 exceeds \<open>MAX_CHUNK_TOKENS\<close>. \<open>splitLargeSection\<close>
  cuts it into its two paragraphs, adds their estimates 750 + 750 = 1500 without the
  separator, packs both into one piece, and returns that piece, which is the section
  itself: two paragraphs, estimated at 1501. The page's only chunk has that estimate.
\<close>

theorem splitLargeSection_oversized_piece:
  "splitByHeadings (markdown bigPage) = [twoParagraphs]
   \<and> estimateTokens (content twoParagraphs) = 1501
   \<and> splitParagraphs (content twoParagraphs)
       = [replicate 3000 (CHR ''a''), replicate 3000 (CHR ''b'')]
   \<and> splitLargeSection twoParagraphs = [twoParagraphs]
   \<and> map tokenEstimate (chunkPage bigPage) = [1501]
   \<and> MAX_CHUNK_TOKENS = 1500"
proof -
  have md: "markdown bigPage = content twoParagraphs"
    by (simp add: bigPage_def twoParagraphs_def)
  have sh: "splitByHeadings (markdown bigPage) = [twoParagraphs]"
    unfolding md by (rule splitByHeadings_twoParagraphs)
  have ps: "pageSections bigPage = [twoParagraphs]"
    by (simp add: pageSections_def sh mergeSections_def splitLargeSection_twoParagraphs)
  have "trim (markdown bigPage) \<noteq> []"
  proof
    assume "trim (markdown bigPage) = []"
    then have "\<forall>c\<in>set (markdown bigPage). isWhiteSpace c"
      by (simp only: trim_Nil_iff)
    then have "isWhiteSpace (CHR ''a'')"
      by (simp add: bigPage_def)
    then show False
      by (simp add: isWhiteSpace_def)
  qed
  then have "map tokenEstimate (chunkPage bigPage) = [estimateTokens (content twoParagraphs)]"
    by (simp add: chunkPage_eq_map ps tokenEstimate_makeChunk)
  then have ch: "map tokenEstimate (chunkPage bigPage) = [1501]"
    by (simp only: estimateTokens_twoParagraphs)
  have mx: "MAX_CHUNK_TOKENS = 1500"
    by (simp add: MAX_CHUNK_TOKENS_def)
  from sh estimateTokens_twoParagraphs splitParagraphs_twoParagraphs
    splitLargeSection_twoParagraphs ch mx
  show ?thesis
    by (intro conjI)
qed


lemma packLoop_pieces:
  assumes "\<forall>p\<in>set result. heading p = heading s \<and> headingLevel p = headingLevel s
             \<and> (\<exists>ps. ps \<noteq> [] \<and> content p = join [LF, LF] ps
                  \<and> (length ps = 1 \<or> sum_list (map estimateTokens ps) \<le> MAX_CHUNK_TOKENS))"
    and "currentTokens = sum_list (map estimateTokens cur)"
    and "length cur \<le> 1 \<or> currentTokens \<le> MAX_CHUNK_TOKENS"
  shows "\<forall>p\<in>set (packLoop s paragraphs result cur currentTokens).
           heading p = heading s \<and> headingLevel p = headingLevel s
           \<and> (\<exists>ps. ps \<noteq> [] \<and> content p = join [LF, LF] ps
                \<and> (length ps = 1 \<or> sum_list (map estimateTokens ps) \<le> MAX_CHUNK_TOKENS))"
  using assms
proof (induction paragraphs arbitrary: result cur currentTokens)
  case Nil
  have "cur \<noteq> [] \<Longrightarrow> length cur = 1 \<or> sum_list (map estimateTokens cur) \<le> MAX_CHUNK_TOKENS"
    using Nil(2,3) by (cases cur) auto
  then have "cur \<noteq> [] \<Longrightarrow> heading (pieceOf s cur) = heading s
      \<and> headingLevel (pieceOf s cur) = headingLevel s
      \<and> (\<exists>ps. ps \<noteq> [] \<and> content (pieceOf s cur) = join [LF, LF] ps
           \<and> (length ps = 1 \<or> sum_list (map estimateTokens ps) \<le> MAX_CHUNK_TOKENS))"
    by (auto simp: pieceOf_def)
  then show ?case
    using Nil(1) by auto
next
  case (Cons para paragraphs)
  let ?pt = "estimateTokens para"
  show ?case
  proof (cases "currentTokens + ?pt > MAX_CHUNK_TOKENS \<and> cur \<noteq> []")
    case True
    have "length cur = 1 \<or> sum_list (map estimateTokens cur) \<le> MAX_CHUNK_TOKENS"
      using True Cons.prems(2,3) by (cases cur) auto
    then have piece: "heading (pieceOf s cur) = heading s
      \<and> headingLevel (pieceOf s cur) = headingLevel s
      \<and> (\<exists>ps. ps \<noteq> [] \<and> content (pieceOf s cur) = join [LF, LF] ps
           \<and> (length ps = 1 \<or> sum_list (map estimateTokens ps) \<le> MAX_CHUNK_TOKENS))"
      using True by (auto simp: pieceOf_def)
    have r: "\<forall>p\<in>set (result @ [pieceOf s cur]). heading p = heading s
             \<and> headingLevel p = headingLevel s
             \<and> (\<exists>ps. ps \<noteq> [] \<and> content p = join [LF, LF] ps
                  \<and> (length ps = 1 \<or> sum_list (map estimateTokens ps) \<le> MAX_CHUNK_TOKENS))"
      using Cons.prems(1) piece by auto
    have "packLoop s (para # paragraphs) result cur currentTokens
            = packLoop s paragraphs (result @ [pieceOf s cur]) [para] ?pt"
      using True by simp
    moreover have "\<forall>p\<in>set (packLoop s paragraphs (result @ [pieceOf s cur]) [para] ?pt).
           heading p = heading s \<and> headingLevel p = headingLevel s
           \<and> (\<exists>ps. ps \<noteq> [] \<and> content p = join [LF, LF] ps
                \<and> (length ps = 1 \<or> sum_list (map estimateTokens ps) \<le> MAX_CHUNK_TOKENS))"
      by (rule Cons.IH [OF r]) simp_all
    ultimately show ?thesis by simp
  next
    case False
    have e: "packLoop s (para # paragraphs) result cur currentTokens
            = packLoop s paragraphs result (cur @ [para]) (currentTokens + ?pt)"
      using False by (auto simp: Let_def)
    have t: "currentTokens + ?pt = sum_list (map estimateTokens (cur @ [para]))"
      using Cons.prems(2) by simp
    have b: "length (cur @ [para]) \<le> 1 \<or> currentTokens + ?pt \<le> MAX_CHUNK_TOKENS"
      using False by auto
    show ?thesis
      unfolding e by (rule Cons.IH [OF Cons.prems(1) t b])
  qed
qed

text \<open>
  What \<open>splitLargeSection\<close> does guarantee: every piece has the section's heading and
  level; a section estimated at most \<open>MAX_CHUNK_TOKENS\<close> is returned as it is; and a
  piece of a larger section is a run of paragraphs joined by blank lines that is either
  a single paragraph or has paragraph estimates that add up to at most
  \<open>MAX_CHUNK_TOKENS\<close> (the separators are not counted).
\<close>

theorem splitLargeSection_pieces:
  "\<forall>p\<in>set (splitLargeSection s).
     heading p = heading s \<and> headingLevel p = headingLevel s
     \<and> (estimateTokens (content s) \<le> MAX_CHUNK_TOKENS \<longrightarrow> p = s)
     \<and> (MAX_CHUNK_TOKENS < estimateTokens (content s) \<longrightarrow>
          (\<exists>ps. ps \<noteq> [] \<and> content p = join [LF, LF] ps
             \<and> (length ps = 1 \<or> sum_list (map estimateTokens ps) \<le> MAX_CHUNK_TOKENS)))"
proof (cases "estimateTokens (content s) \<le> MAX_CHUNK_TOKENS")
  case True
  then show ?thesis by (simp add: splitLargeSection_def)
next
  case False
  have "\<forall>p\<in>set (packLoop s (splitParagraphs (content s)) [] [] 0).
           heading p = heading s \<and> headingLevel p = headingLevel s
           \<and> (\<exists>ps. ps \<noteq> [] \<and> content p = join [LF, LF] ps
                \<and> (length ps = 1 \<or> sum_list (map estimateTokens ps) \<le> MAX_CHUNK_TOKENS))"
    by (rule packLoop_pieces) simp_all
  then show ?thesis
    using False by (simp add: splitLargeSection_def)
qed


theorem splitLargeSection_pieces_witness:
  "splitLargeSection twoParagraphs = [twoParagraphs]
   \<and> MAX_CHUNK_TOKENS < estimateTokens (content twoParagraphs)
   \<and> (\<exists>ps. ps \<noteq> [] \<and> content twoParagraphs = join [LF, LF] ps
          \<and> (length ps = 1 \<or> sum_list (map estimateTokens ps) \<le> MAX_CHUNK_TOKENS))"
proof -
  have m: "twoParagraphs \<in> set (splitLargeSection twoParagraphs)"
    by (simp add: splitLargeSection_twoParagraphs)
  have big: "MAX_CHUNK_TOKENS < estimateTokens (content twoParagraphs)"
    by (simp add: estimateTokens_twoParagraphs MAX_CHUNK_TOKENS_def)
  from splitLargeSection_pieces [of twoParagraphs] m big
  have "\<exists>ps. ps \<noteq> [] \<and> content twoParagraphs = join [LF, LF] ps
          \<and> (length ps = 1 \<or> sum_list (map estimateTokens ps) \<le> MAX_CHUNK_TOKENS)"
    by blast
  with splitLargeSection_twoParagraphs big show ?thesis
    by (intro conjI)
qed

subsection \<open>Heading hierarchy\<close>


lemma popStack_filter:
  "sorted_wrt (<) (map snd stack) \<Longrightarrow> popStack stack lvl = filter (\<lambda>e. snd e < lvl) stack"
proof (induction stack rule: rev_induct)
  case Nil
  then show ?case by (simp add: popStack.simps)
next
  case (snoc x xs)
  from snoc.prems have sx: "sorted_wrt (<) (map snd xs)" and lt: "\<forall>e\<in>set xs. snd e < snd x"
    by (auto simp: sorted_wrt_append)
  show ?case
  proof (cases "lvl \<le> snd x")
    case True
    then have "popStack (xs @ [x]) lvl = popStack xs lvl"
      by (subst popStack.simps) simp
    with True snoc.IH [OF sx] show ?thesis by simp
  next
    case False
    then have "popStack (xs @ [x]) lvl = xs @ [x]"
      by (subst popStack.simps) simp
    moreover have "filter (\<lambda>e. snd e < lvl) xs = xs"
      using lt False by (auto simp: filter_id_conv)
    ultimately show ?thesis using False by simp
  qed
qed

lemma sorted_specStackStep:
  "sorted_wrt (<) (map snd stack) \<Longrightarrow> sorted_wrt (<) (map snd (specStackStep stack s))"
  by (auto simp: specStackStep_def Let_def sorted_wrt_append sorted_wrt_map
      intro: sorted_wrt_filter)

lemma hierarchyLoop_spec:
  "sorted_wrt (<) (map snd stack) \<Longrightarrow>
   hierarchyLoop sections pageTitle hierarchies stack
     = hierarchies @ specHierarchy sections pageTitle stack"
proof (induction sections arbitrary: hierarchies stack)
  case Nil
  then show ?case by simp
next
  case (Cons s sections)
  have step: "(if heading s \<noteq> [] then popStack stack (headingLevel s) @ [(heading s, headingLevel s)]
               else popStack stack (headingLevel s)) = specStackStep stack s"
    by (simp add: specStackStep_def popStack_filter [OF Cons.prems])
  have "hierarchyLoop (s # sections) pageTitle hierarchies stack
        = hierarchyLoop sections pageTitle
            (hierarchies @ [pageTitle # map fst (specStackStep stack s)]) (specStackStep stack s)"
    by (simp add: Let_def step)
  also have "\<dots> = (hierarchies @ [pageTitle # map fst (specStackStep stack s)])
                  @ specHierarchy sections pageTitle (specStackStep stack s)"
    by (rule Cons.IH) (rule sorted_specStackStep [OF Cons.prems])
  finally show ?case by simp
qed

lemma buildHeadingHierarchy_spec:
  "buildHeadingHierarchy sections pageTitle = specHierarchy sections pageTitle []"
  by (simp add: buildHeadingHierarchy_def hierarchyLoop_spec)

lemma length_specHierarchy: "length (specHierarchy sections pageTitle stack) = length sections"
  by (induction sections arbitrary: stack) simp_all

lemma specHierarchy_append:
  "specHierarchy (xs @ ys) pageTitle stack
     = specHierarchy xs pageTitle stack @ specHierarchy ys pageTitle (foldl specStackStep stack xs)"
  by (induction xs arbitrary: stack) simp_all

lemma specHierarchy_nth_snoc:
  "specHierarchy (xs @ b # ys) pageTitle stack ! length xs
     = pageTitle # map fst (specStackStep (foldl specStackStep stack xs) b)"
  by (simp add: specHierarchy_append nth_append length_specHierarchy)

lemma levels_specStackStep:
  assumes "\<forall>e\<in>set stack. k \<le> snd e" and "heading s \<noteq> [] \<longrightarrow> k \<le> headingLevel s"
  shows "\<forall>e\<in>set (specStackStep stack s). k \<le> snd e"
  using assms by (auto simp: specStackStep_def Let_def)

lemma levels_foldl_specStackStep:
  assumes "\<forall>e\<in>set stack. k \<le> snd e" and "\<forall>s\<in>set xs. heading s \<noteq> [] \<longrightarrow> k \<le> headingLevel s"
  shows "\<forall>e\<in>set (foldl specStackStep stack xs). k \<le> snd e"
  using assms
proof (induction xs arbitrary: stack)
  case Nil
  then show ?case by simp
next
  case (Cons x xs)
  have "\<forall>e\<in>set (specStackStep stack x). k \<le> snd e"
    using Cons.prems by (intro levels_specStackStep) simp_all
  then show ?case
    using Cons.prems(2) Cons.IH by simp
qed

lemma under_root_specStackStep:
  assumes "stack = r # rest" and "\<forall>e\<in>set rest. snd r < snd e" and "snd r < headingLevel s"
  shows "\<exists>rest'. specStackStep stack s = r # rest' \<and> (\<forall>e\<in>set rest'. snd r < snd e)"
  using assms by (auto simp: specStackStep_def Let_def)

lemma under_root_foldl:
  assumes "stack = r # rest" and "\<forall>e\<in>set rest. snd r < snd e"
    and "\<forall>s\<in>set xs. snd r < headingLevel s"
  shows "\<exists>rest'. foldl specStackStep stack xs = r # rest' \<and> (\<forall>e\<in>set rest'. snd r < snd e)"
  using assms
proof (induction xs arbitrary: stack rest)
  case Nil
  then show ?case by simp
next
  case (Cons x xs)
  obtain rest1 where 1: "specStackStep stack x = r # rest1" and 2: "\<forall>e\<in>set rest1. snd r < snd e"
    using under_root_specStackStep [OF Cons.prems(1,2), of x] Cons.prems(3) by auto
  show ?case
    using Cons.IH [OF 1 2] Cons.prems(3) by simp
qed

lemma nested_trail:
  assumes lv_a: "headingLevel a = 1" and h_a: "heading a = ''A''"
    and lv_b: "headingLevel b = 2" and h_b: "heading b \<noteq> []"
    and mid: "\<forall>m\<in>set mid. 2 \<le> headingLevel m"
    and pre: "\<forall>p\<in>set pre. heading p \<noteq> [] \<longrightarrow> 1 \<le> headingLevel p"
  shows "specHierarchy (pre @ [a] @ mid @ [b]) pageTitle [] ! (length pre + length mid + 1)
          = [pageTitle, ''A'', heading b]"
proof -
  let ?s0 = "foldl specStackStep [] pre"
  have "\<forall>e\<in>set ?s0. 1 \<le> snd e"
    using pre by (intro levels_foldl_specStackStep) simp_all
  then have "filter (\<lambda>e. snd e < 1) ?s0 = []"
    by (auto simp: filter_empty_conv)
  then have s1: "specStackStep ?s0 a = [(''A'', 1)]"
    by (simp add: specStackStep_def lv_a h_a)
  have "\<forall>s\<in>set mid. snd (''A'', 1::nat) < headingLevel s"
    using mid by auto
  then obtain rest where s2: "foldl specStackStep [(''A'', 1)] mid = (''A'', 1) # rest"
    and r: "\<forall>e\<in>set rest. snd (''A'', 1::nat) < snd e"
    using under_root_foldl [of "[(''A'', 1)]" "(''A'', 1)" "[]" mid] by auto
  have "filter (\<lambda>e. snd e < 2) rest = []"
    using r by (auto simp: filter_empty_conv)
  then have s3: "specStackStep ((''A'', 1) # rest) b = [(''A'', 1), (heading b, 2)]"
    by (simp add: specStackStep_def lv_b h_b)
  have "foldl specStackStep [] (pre @ [a] @ mid) = (''A'', 1) # rest"
    using s1 s2 by simp
  then have "specHierarchy ((pre @ [a] @ mid) @ b # []) pageTitle [] ! length (pre @ [a] @ mid)
          = pageTitle # map fst (specStackStep ((''A'', 1) # rest) b)"
    by (simp only: specHierarchy_nth_snoc)
  then show ?thesis
    using s3 by simp
qed

lemma parentHeadings_makeChunk:
  "parentHeadings (makeChunk page slug hs n p)
     = (if fst p < length hs then hs ! fst p else [title page])"
  by (cases p) (simp add: makeChunk_def)

lemma map_parentHeadings_makeChunk:
  "k + length xs \<le> length hs \<Longrightarrow>
   map parentHeadings (map (makeChunk page slug hs n) (enumerate k xs))
     = take (length xs) (drop k hs)"
proof (induction xs arbitrary: k)
  case Nil
  then show ?case by simp
next
  case (Cons x xs)
  then have "k < length hs" by simp
  then have "drop k hs = hs ! k # drop (Suc k) hs"
    by (simp add: Cons_nth_drop_Suc)
  with Cons show ?case
    by (simp add: parentHeadings_makeChunk)
qed

text \<open>
  C7: \<open>buildHeadingHierarchy\<close> computes what the specification's walk computes
  (\<open>specHierarchy\<close>: before a section every stack entry of a level greater than or equal
  to the section's is dropped, a non-empty heading is pushed, and the section's trail is
  the page title followed by the stack's headings from root to nearest). In particular,
  when a section \<open>b\<close> of level 2 with a heading comes after a section of level 1 headed
  \<open>A\<close>, with only sections of level 2 or deeper between them (and no heading of level 0
  before \<open>A\<close>, which the split phase never produces), its trail is the page title,
  \<open>A\<close> and its own heading. \<open>chunkPage\<close> gives chunk \<open>i\<close> the trail of section \<open>i\<close>.
\<close>

theorem buildHeadingHierarchy_stack:
  "buildHeadingHierarchy sections pageTitle = specHierarchy sections pageTitle []
   \<and> (headingLevel a = 1 \<and> heading a = ''A'' \<and> headingLevel b = 2 \<and> heading b \<noteq> []
        \<and> (\<forall>m\<in>set mid. 2 \<le> headingLevel m)
        \<and> (\<forall>p\<in>set pre. heading p \<noteq> [] \<longrightarrow> 1 \<le> headingLevel p)
      \<longrightarrow> buildHeadingHierarchy (pre @ [a] @ mid @ [b]) pageTitle ! (length pre + length mid + 1)
            = [pageTitle, ''A'', heading b])
   \<and> (trim (markdown page) \<noteq> [] \<longrightarrow>
        map parentHeadings (chunkPage page)
          = buildHeadingHierarchy (pageSections page) (title page))"
proof (intro conjI impI)
  show "buildHeadingHierarchy sections pageTitle = specHierarchy sections pageTitle []"
    by (rule buildHeadingHierarchy_spec)
next
  assume "headingLevel a = 1 \<and> heading a = ''A'' \<and> headingLevel b = 2 \<and> heading b \<noteq> []
        \<and> (\<forall>m\<in>set mid. 2 \<le> headingLevel m)
        \<and> (\<forall>p\<in>set pre. heading p \<noteq> [] \<longrightarrow> 1 \<le> headingLevel p)"
  then show "buildHeadingHierarchy (pre @ [a] @ mid @ [b]) pageTitle ! (length pre + length mid + 1)
            = [pageTitle, ''A'', heading b]"
    unfolding buildHeadingHierarchy_spec by (intro nested_trail) simp_all
next
  assume ne: "trim (markdown page) \<noteq> []"
  have l: "length (buildHeadingHierarchy (pageSections page) (title page))
            = length (pageSections page)"
    by (simp add: buildHeadingHierarchy_spec length_specHierarchy)
  show "map parentHeadings (chunkPage page)
          = buildHeadingHierarchy (pageSections page) (title page)"
    unfolding chunkPage_eq_map [OF ne]
    by (subst map_parentHeadings_makeChunk) (simp_all add: l flip: l)
qed

theorem buildHeadingHierarchy_stack_witness:
  "buildHeadingHierarchy nestedSections ''T'' = specHierarchy nestedSections ''T'' []
   \<and> buildHeadingHierarchy nestedSections ''T'' ! 3 = [''T'', ''A'', ''B'']
   \<and> map parentHeadings (chunkPage twoPage)
        = buildHeadingHierarchy (pageSections twoPage) (title twoPage)"
proof -
  define a where "a = \<lparr>heading = ''A'', headingLevel = 1, content = ''# A''\<rparr>"
  define b where "b = \<lparr>heading = ''B'', headingLevel = 2, content = ''## B''\<rparr>"
  define mid where "mid = [\<lparr>heading = ''X'', headingLevel = 3, content = ''### X''\<rparr>]"
  define pre where "pre = [\<lparr>heading = [], headingLevel = 0, content = ''intro''\<rparr>]"
  have ne: "trim (markdown twoPage) \<noteq> []"
    using length_chunkPage_twoPage by (auto simp: length_chunkPage split: if_splits)
  have n: "pre @ [a] @ mid @ [b] = nestedSections"
    by (simp add: nestedSections_def a_def b_def mid_def pre_def)
  have k: "length pre + length mid + 1 = 3"
    by (simp add: mid_def pre_def)
  have hyp: "headingLevel a = 1 \<and> heading a = ''A'' \<and> headingLevel b = 2 \<and> heading b \<noteq> []
        \<and> (\<forall>m\<in>set mid. 2 \<le> headingLevel m)
        \<and> (\<forall>p\<in>set pre. heading p \<noteq> [] \<longrightarrow> 1 \<le> headingLevel p)"
    by (simp add: a_def b_def mid_def pre_def)
  note T = buildHeadingHierarchy_stack [of nestedSections "''T''" a b mid pre twoPage]
  from T have c1: "buildHeadingHierarchy nestedSections ''T'' = specHierarchy nestedSections ''T'' []"
    by (rule conjunct1)
  from T hyp have "buildHeadingHierarchy (pre @ [a] @ mid @ [b]) ''T'' ! (length pre + length mid + 1)
            = [''T'', ''A'', heading b]"
    by blast
  then have c2: "buildHeadingHierarchy nestedSections ''T'' ! 3 = [''T'', ''A'', ''B'']"
    unfolding n k by (simp add: b_def)
  from T ne have c3: "map parentHeadings (chunkPage twoPage)
        = buildHeadingHierarchy (pageSections twoPage) (title twoPage)"
    by blast
  from c1 c2 c3 show ?thesis
    by (intro conjI)
qed


subsection \<open>Chunk ids\<close>


lemma of_char_digitChar: "d < 10 \<Longrightarrow> (of_char (digitChar d) :: nat) = 48 + d"
  by (simp add: digitChar_def)

lemma digitChar_not_hyphen: "d < 10 \<Longrightarrow> digitChar d \<noteq> CHR ''-''"
proof
  assume "d < 10" and "digitChar d = CHR ''-''"
  then have "(of_char (digitChar d) :: nat) = of_char (CHR ''-'')" by simp
  with \<open>d < 10\<close> show False by (simp add: of_char_digitChar)
qed

lemma natToString_no_hyphen: "CHR ''-'' \<notin> set (natToString n)"
proof (induction n rule: natToString.induct)
  case (1 n)
  show ?case
  proof (cases "n < 10")
    case True
    then show ?thesis
      using digitChar_not_hyphen [of n] by (subst natToString.simps) auto
  next
    case False
    have "n mod 10 < 10" by simp
    then have "digitChar (n mod 10) \<noteq> CHR ''-''" by (rule digitChar_not_hyphen)
    with False 1 show ?thesis
      by (subst natToString.simps) auto
  qed
qed

lemma digitsValue_snoc:
  "digitsValue (s @ [c]) = digitsValue s * 10 + ((of_char c :: nat) - 48)"
  by (simp add: digitsValue_def)

lemma digitsValue_natToString: "digitsValue (natToString n) = n"
proof (induction n rule: natToString.induct)
  case (1 n)
  show ?case
  proof (cases "n < 10")
    case True
    then have "natToString n = [] @ [digitChar n]"
      by (subst natToString.simps) simp
    then have "digitsValue (natToString n) = digitsValue [] * 10 + ((of_char (digitChar n) :: nat) - 48)"
      by (simp only: digitsValue_snoc)
    with True show ?thesis
      by (simp add: of_char_digitChar digitsValue_def)
  next
    case False
    then have "natToString n = natToString (n div 10) @ [digitChar (n mod 10)]"
      by (subst natToString.simps) simp
    then have "digitsValue (natToString n)
        = digitsValue (natToString (n div 10)) * 10 + ((of_char (digitChar (n mod 10)) :: nat) - 48)"
      by (simp only: digitsValue_snoc)
    with False 1 show ?thesis
      by (simp add: of_char_digitChar)
  qed
qed

lemma digitsValue_zeros: "digitsValue (replicate k (CHR ''0'') @ s) = digitsValue s"
proof -
  have "foldl (\<lambda>acc c. acc * 10 + ((of_char c :: nat) - 48)) 0 (replicate k (CHR ''0'')) = 0"
    by (induction k) simp_all
  then show ?thesis
    by (simp add: digitsValue_def)
qed

lemma digitsValue_ordinal: "digitsValue (padStart 2 (natToString i)) = i"
  by (simp add: padStart_def digitsValue_zeros digitsValue_natToString)

lemma ordinal_no_hyphen: "CHR ''-'' \<notin> set (padStart 2 (natToString i))"
  using natToString_no_hyphen [of i] by (auto simp: padStart_def)

lemma id_parts:
  assumes "slug @ ''-'' @ ord1 = slug' @ ''-'' @ ord2"
    and "CHR ''-'' \<notin> set ord1" and "CHR ''-'' \<notin> set ord2"
  shows "slug = slug' \<and> ord1 = ord2"
proof -
  let ?P = "\<lambda>c. c \<noteq> CHR ''-''"
  have t: "takeWhile ?P (rev o1 @ CHR ''-'' # rev sl) = rev o1"
    if "CHR ''-'' \<notin> set o1" for o1 sl :: string
  proof -
    have "takeWhile ?P (rev o1 @ CHR ''-'' # rev sl) = rev o1 @ takeWhile ?P (CHR ''-'' # rev sl)"
      using that by (intro takeWhile_append2) auto
    then show ?thesis by simp
  qed
  have r1: "rev (slug @ ''-'' @ ord1) = rev ord1 @ CHR ''-'' # rev slug"
    by simp
  have r2: "rev (slug' @ ''-'' @ ord2) = rev ord2 @ CHR ''-'' # rev slug'"
    by simp
  have "takeWhile ?P (rev (slug @ ''-'' @ ord1)) = takeWhile ?P (rev (slug' @ ''-'' @ ord2))"
    by (simp only: assms(1))
  then have "rev ord1 = rev ord2"
    by (simp only: r1 r2 t [OF assms(2)] t [OF assms(3)])
  then have o: "ord1 = ord2"
    by (simp only: rev_is_rev_conv)
  have "slug @ (''-'' @ ord2) = slug' @ (''-'' @ ord2)"
    using assms(1) by (simp only: o)
  then have "slug = slug'"
    by (simp only: append_same_eq)
  with o show ?thesis
    by (intro conjI)
qed

lemma chunk_id_makeChunk:
  "chunk_id (makeChunk page slug hs n p) = slug @ ''-'' @ padStart 2 (natToString (fst p))"
  by (cases p) (simp add: makeChunk_def)

lemma chunk_ids_of_page:
  "map chunk_id (map (makeChunk page slug hs n) (enumerate k xs))
     = map (\<lambda>i. slug @ ''-'' @ padStart 2 (natToString i)) [k..<k + length xs]"
proof -
  have "map chunk_id (map (makeChunk page slug hs n) ys)
      = map (\<lambda>i. slug @ ''-'' @ padStart 2 (natToString i)) (map fst ys)" for ys
    by (induction ys) (simp_all add: chunk_id_makeChunk)
  from this [of "enumerate k xs"] show ?thesis
    by (simp only: map_fst_enumerate)
qed

lemma ordinal_inj:
  assumes "padStart 2 (natToString i) = padStart 2 (natToString j)"
  shows "i = j"
proof -
  have "digitsValue (padStart 2 (natToString i)) = digitsValue (padStart 2 (natToString j))"
    by (simp only: assms)
  then show ?thesis
    by (simp only: digitsValue_ordinal)
qed

lemma chunk_ids_chunkPage:
  "map chunk_id (chunkPage page)
     = map (\<lambda>i. pageSlug page @ ''-'' @ padStart 2 (natToString i)) [0..<length (chunkPage page)]"
proof (cases "trim (markdown page) = []")
  case True
  then show ?thesis by (simp add: chunkPage_def)
next
  case False
  have l: "length (chunkPage page) = length (pageSections page)"
    using False by (simp add: length_chunkPage)
  show ?thesis
    unfolding l unfolding chunkPage_eq_map [OF False] chunk_ids_of_page by simp
qed

lemma distinct_chunk_ids_page: "distinct (map chunk_id (chunkPage page))"
proof -
  have "inj_on (\<lambda>i. pageSlug page @ ''-'' @ padStart 2 (natToString i)) A" for A
    by (rule inj_onI) (auto dest: ordinal_inj)
  then show ?thesis
    unfolding chunk_ids_chunkPage by (simp add: distinct_map)
qed

lemma chunk_id_slug:
  assumes "x \<in> set (map chunk_id (chunkPage page))"
  shows "\<exists>i. x = pageSlug page @ ''-'' @ padStart 2 (natToString i)"
  using assms unfolding chunk_ids_chunkPage by auto

lemma chunk_id_in_chunkAll:
  assumes "x \<in> set (map chunk_id (chunkAll pages))"
  shows "\<exists>q\<in>set pages. x \<in> set (map chunk_id (chunkPage q))"
  using assms by (auto simp: chunkAll_def)

lemma distinct_chunk_ids_all:
  "distinct (map pageSlug pages) \<Longrightarrow> distinct (map chunk_id (chunkAll pages))"
proof (induction pages)
  case Nil
  then show ?case by (simp add: chunkAll_def)
next
  case (Cons p pages)
  have d: "distinct (map chunk_id (chunkAll pages))"
    using Cons by simp
  have disj: "set (map chunk_id (chunkPage p)) \<inter> set (map chunk_id (chunkAll pages)) = {}"
  proof (rule ccontr)
    assume "set (map chunk_id (chunkPage p)) \<inter> set (map chunk_id (chunkAll pages)) \<noteq> {}"
    then obtain x where xp: "x \<in> set (map chunk_id (chunkPage p))"
      and xa: "x \<in> set (map chunk_id (chunkAll pages))"
      by blast
    from xa obtain q where q: "q \<in> set pages" and xq: "x \<in> set (map chunk_id (chunkPage q))"
      using chunk_id_in_chunkAll by blast
    from xp obtain i where i: "x = pageSlug p @ ''-'' @ padStart 2 (natToString i)"
      using chunk_id_slug by blast
    from xq obtain j where j: "x = pageSlug q @ ''-'' @ padStart 2 (natToString j)"
      using chunk_id_slug by blast
    from i j have "pageSlug p = pageSlug q"
      using id_parts [OF _ ordinal_no_hyphen ordinal_no_hyphen] by metis
    with q Cons.prems show False by auto
  qed
  show ?case
    using d disj distinct_chunk_ids_page [of p]
    by (simp add: chunkAll_Cons)
qed

lemma chunkAll_filter:
  "chunkAll (filter (\<lambda>p. trim (markdown p) \<noteq> []) pages) = chunkAll pages"
  by (induction pages) (simp_all add: chunkAll_Cons chunkPage_def)

text \<open>
  What the code does give: an id is the page's slug, a hyphen and the zero-padded ordinal
  of the chunk, so the ids of one page's chunks are pairwise distinct, and the ids that
  \<open>chunkAll\<close> produces are pairwise distinct when the pages that have content have
  pairwise distinct slugs.
\<close>

theorem chunk_ids_distinct:
  "distinct (map chunk_id (chunkPage page))
   \<and> (distinct (map pageSlug (filter (\<lambda>p. trim (markdown p) \<noteq> []) pages))
        \<longrightarrow> distinct (map chunk_id (chunkAll pages)))"
  using distinct_chunk_ids_page [of page]
    distinct_chunk_ids_all [of "filter (\<lambda>p. trim (markdown p) \<noteq> []) pages"]
  by (simp add: chunkAll_filter)

lemma ordinal_0: "padStart 2 (natToString 0) = ''00''"
  by code_simp

lemma ids_overviewA: "map chunk_id (chunkPage overviewA) = [''overview-00'']"
proof -
  have l: "length (chunkPage overviewA) = 1"
    by code_simp
  have sl: "pageSlug overviewA = ''overview''"
    by code_simp
  show ?thesis
    unfolding chunk_ids_chunkPage l sl by (simp add: ordinal_0)
qed

lemma ids_overviewB: "map chunk_id (chunkPage overviewB) = [''overview-00'']"
proof -
  have l: "length (chunkPage overviewB) = 1"
    by code_simp
  have sl: "pageSlug overviewB = ''overview''"
    by code_simp
  show ?thesis
    unfolding chunk_ids_chunkPage l sl by (simp add: ordinal_0)
qed

lemma chunk_path_makeChunk: "chunk_path (makeChunk page slug hs n p) = path page"
  by (cases p) (simp add: makeChunk_def)

lemma chunk_paths_chunkPage: "\<forall>c\<in>set (chunkPage page). chunk_path c = path page"
  by (cases "trim (markdown page) = []")
     (auto simp: chunkPage_def Let_def chunk_path_makeChunk)

lemma tokens_overviewA: "map tokenEstimate (chunkPage overviewA) = [34]"
  by code_simp

lemma tokens_overviewB: "map tokenEstimate (chunkPage overviewB) = [34]"
  by code_simp

text \<open>
  C3, at the pages \<open>overviewA\<close> and \<open>overviewB\<close>: they lie at different paths and have
  the same title, so the same slug, and the only chunk of each gets the id
  \<^verbatim>\<open>overview-00\<close>: the ids of the run are not pairwise distinct. Both chunks pass the
  driver's size filter, and the driver writes both to the file that their id names: the
  directory ends with one file, which holds the chunk of the second page, and the chunk
  of the first page is in no file.
\<close>

theorem chunkAll_ids_collide:
  "path overviewA = ''/docs/sso-overview'' \<and> path overviewB = ''/docs/api-overview''
   \<and> map chunk_id (chunkAll [overviewA, overviewB]) = [''overview-00'', ''overview-00'']
   \<and> \<not> distinct (map chunk_id (chunkAll [overviewA, overviewB]))
   \<and> map chunk_path (usefulChunks [overviewA, overviewB])
       = [''/docs/sso-overview'', ''/docs/api-overview'']
   \<and> dom (chunkFiles [overviewA, overviewB]) = {''docs/chunks/overview-00.json''}
   \<and> map_option chunk_path (chunkFiles [overviewA, overviewB] ''docs/chunks/overview-00.json'')
       = Some ''/docs/api-overview''"
proof -
  have pa: "path overviewA = ''/docs/sso-overview''"
    by (simp add: overviewA_def)
  have pb: "path overviewB = ''/docs/api-overview''"
    by (simp add: overviewB_def)
  obtain a where a: "chunkPage overviewA = [a]"
    using ids_overviewA by auto
  obtain b where b: "chunkPage overviewB = [b]"
    using ids_overviewB by auto
  have ia: "chunk_id a = ''overview-00''" and ta: "tokenEstimate a = 34"
    using ids_overviewA tokens_overviewA by (simp_all add: a)
  have ib: "chunk_id b = ''overview-00''" and tb: "tokenEstimate b = 34"
    using ids_overviewB tokens_overviewB by (simp_all add: b)
  have qa: "chunk_path a = ''/docs/sso-overview''"
    using chunk_paths_chunkPage [of overviewA] by (simp add: a pa)
  have qb: "chunk_path b = ''/docs/api-overview''"
    using chunk_paths_chunkPage [of overviewB] by (simp add: b pb)
  have all: "chunkAll [overviewA, overviewB] = [a, b]"
    by (simp add: chunkAll_def a b)
  have useful: "usefulChunks [overviewA, overviewB] = [a, b]"
    by (simp add: usefulChunks_def all ta tb MIN_USEFUL_TOKENS_def)
  have fa: "filePath a = ''docs/chunks/overview-00.json''"
    by (simp add: filePath_def CHUNKS_DIR_def ia)
  have fb: "filePath b = ''docs/chunks/overview-00.json''"
    by (simp add: filePath_def CHUNKS_DIR_def ib)
  have files: "chunkFiles [overviewA, overviewB] = [''docs/chunks/overview-00.json'' \<mapsto> b]"
    by (simp add: chunkFiles_def useful fa fb)
  have 3: "map chunk_id (chunkAll [overviewA, overviewB]) = [''overview-00'', ''overview-00'']"
    by (simp add: all ia ib)
  have 4: "\<not> distinct (map chunk_id (chunkAll [overviewA, overviewB]))"
    by (simp add: all ia ib)
  have 5: "map chunk_path (usefulChunks [overviewA, overviewB])
       = [''/docs/sso-overview'', ''/docs/api-overview'']"
    by (simp add: useful qa qb)
  have 6: "dom (chunkFiles [overviewA, overviewB]) = {''docs/chunks/overview-00.json''}"
    by (simp add: files)
  have 7: "map_option chunk_path (chunkFiles [overviewA, overviewB] ''docs/chunks/overview-00.json'')
       = Some ''/docs/api-overview''"
    by (simp add: files qb)
  from pa pb 3 4 5 6 7 show ?thesis
    by (intro conjI)
qed

lemma slugs_witness: "map pageSlug [twoPage, blankPage, overviewA] = [''two'', ''blank'', ''overview'']"
  by code_simp

lemma nonblank_witness:
  "filter (\<lambda>p. trim (markdown p) \<noteq> []) [twoPage, blankPage, overviewA] = [twoPage, overviewA]"
  by code_simp

theorem chunk_ids_distinct_witness:
  "distinct (map chunk_id (chunkPage twoPage))
   \<and> distinct (map chunk_id (chunkAll [twoPage, blankPage, overviewA]))"
proof -
  have "distinct (map pageSlug (filter (\<lambda>p. trim (markdown p) \<noteq> []) [twoPage, blankPage, overviewA]))"
    using slugs_witness by (simp add: nonblank_witness)
  then show ?thesis
    using chunk_ids_distinct [of twoPage "[twoPage, blankPage, overviewA]"] by blast
qed


subsection \<open>The merge scenario\<close>


lemma pageSections_scenarioPage:
  "pageSections scenarioPage =
     [\<lparr>heading = ''A'', headingLevel = 1,
       content = ''# A'' @ [LF, LF] @ ''short'' @ [LF, LF] @ ''## B'' @ [LF, LF] @ ''short''\<rparr>]"
  by code_simp

lemma nonblank_scenarioPage: "trim (markdown scenarioPage) \<noteq> []"
  by code_simp

lemma chunk_heading_makeChunk:
  "chunk_heading (makeChunk page slug hs n p)
     = (if heading (snd p) \<noteq> [] then heading (snd p) else title page)"
  by (cases p) (simp add: makeChunk_def)

text \<open>
  The specification's merge scenario: the page \<^verbatim>\<open># A\n\nshort\n\n## B\n\nshort\<close>, whose
  two sections are both below the minimum, becomes a single chunk with heading \<open>A\<close> and
  \<open>totalChunks\<close> 1, holding the whole markdown.
\<close>

theorem chunkPage_merge_scenario:
  "length (chunkPage scenarioPage) = 1
   \<and> map chunk_heading (chunkPage scenarioPage) = [''A'']
   \<and> map totalChunks (chunkPage scenarioPage) = [1]
   \<and> map chunk_content (chunkPage scenarioPage) = [markdown scenarioPage]"
  unfolding chunkPage_eq_map [OF nonblank_scenarioPage] pageSections_scenarioPage
  by (simp add: chunk_heading_makeChunk totalChunks_makeChunk chunk_content_makeChunk
      scenarioPage_def)


section \<open>Properties of the fetcher\<close>


lemma markdown_extractFromHtml:
  "markdown (extractFromHtml doc u p sect tag now) = trim (turndownOutput doc)"
  by (simp add: extractFromHtml_def)

lemma fetchMethod_extractFromHtml:
  "fetchMethod (extractFromHtml doc u p sect tag now) = tag"
  by (simp add: extractFromHtml_def)

lemma crawlPage_thin:
  assumes "staticResponse net = Ok doc"
    and "estimateTokens (trim (turndownOutput doc)) < thinPageThreshold"
  shows "crawlPage thinPageThreshold p sect net =
     (case fetchWithPlaywright p sect net of
        Throws \<Rightarrow> None
      | Returns None \<Rightarrow>
          Some (extractFromHtml doc (BASE_URL @ p) p sect Static (staticClock net))
      | Returns (Some pwResult) \<Rightarrow>
          (if estimateTokens (markdown pwResult) > estimateTokens (trim (turndownOutput doc))
           then Some pwResult
           else Some (extractFromHtml doc (BASE_URL @ p) p sect Static (staticClock net))))"
  using assms
  by (simp add: crawlPage_def fetchStatic_def markdown_extractFromHtml Let_def not_le [symmetric]
      del: not_le)

text \<open>
  A throw that \<open>fetchWithPlaywright\<close> does not catch, from opening the browser page or from
  closing it, reaches the \<^verbatim>\<open>catch\<close> of \<open>crawlPage\<close>: the page then has no result.
\<close>

lemma crawlPage_escaping_throw:
  assumes "staticResponse net = Ok doc"
    and "estimateTokens (trim (turndownOutput doc)) < thinPageThreshold"
    and "newPageThrows net \<or> closeThrows net"
  shows "crawlPage thinPageThreshold p sect net = None"
  using assms(3) by (auto simp: crawlPage_thin [OF assms(1,2)] fetchWithPlaywright_def Let_def)

text \<open>
  When the static fetch returns a document whose extracted markdown is estimated below
  the threshold, and the browser page opens and closes, \<open>crawlPage\<close> returns the static
  result if loading, waiting for or reading the rendered page throws, and otherwise
  whichever of the static and the rendered result has the larger estimate (the static
  one on a tie); the static result is tagged \<open>Static\<close> and the rendered one
  \<open>Playwright\<close>. In particular 10 estimated tokens against 500 returns the rendered
  result.
\<close>

theorem crawlPage_thin_policy:
  assumes "staticResponse net = Ok doc"
    and "estimateTokens (trim (turndownOutput doc)) < thinPageThreshold"
    and "\<not> newPageThrows net" and "\<not> closeThrows net"
  shows "(renderResponse net = RenderThrows \<longrightarrow>
            crawlPage thinPageThreshold p sect net
              = Some (extractFromHtml doc (BASE_URL @ p) p sect Static (staticClock net)))
     \<and> (\<forall>doc2. renderResponse net = Rendered doc2 \<longrightarrow>
            crawlPage thinPageThreshold p sect net
              = Some (if estimateTokens (trim (turndownOutput doc2))
                          > estimateTokens (trim (turndownOutput doc))
                      then extractFromHtml doc2 (BASE_URL @ p) p sect Playwright (renderClock net)
                      else extractFromHtml doc (BASE_URL @ p) p sect Static (staticClock net)))
     \<and> fetchMethod (extractFromHtml doc (BASE_URL @ p) p sect Static (staticClock net)) = Static
     \<and> (\<forall>doc2. fetchMethod (extractFromHtml doc2 (BASE_URL @ p) p sect Playwright (renderClock net))
             = Playwright)
     \<and> (\<forall>doc2. renderResponse net = Rendered doc2
            \<and> estimateTokens (trim (turndownOutput doc)) = 10
            \<and> estimateTokens (trim (turndownOutput doc2)) = 500 \<longrightarrow>
            crawlPage thinPageThreshold p sect net
              = Some (extractFromHtml doc2 (BASE_URL @ p) p sect Playwright (renderClock net)))"
proof -
  note c = crawlPage_thin [OF assms(1,2), of p sect]
  have pw: "fetchWithPlaywright p sect net =
      Returns (case renderResponse net of
                 RenderThrows \<Rightarrow> None
               | Rendered d \<Rightarrow>
                   Some (extractFromHtml d (BASE_URL @ p) p sect Playwright (renderClock net)))"
    using assms(3,4) by (simp add: fetchWithPlaywright_def)
  have 1: "renderResponse net = RenderThrows \<longrightarrow>
            crawlPage thinPageThreshold p sect net
              = Some (extractFromHtml doc (BASE_URL @ p) p sect Static (staticClock net))"
    by (simp add: c pw)
  have 2: "\<forall>doc2. renderResponse net = Rendered doc2 \<longrightarrow>
            crawlPage thinPageThreshold p sect net
              = Some (if estimateTokens (trim (turndownOutput doc2))
                          > estimateTokens (trim (turndownOutput doc))
                      then extractFromHtml doc2 (BASE_URL @ p) p sect Playwright (renderClock net)
                      else extractFromHtml doc (BASE_URL @ p) p sect Static (staticClock net))"
    by (simp add: c pw markdown_extractFromHtml)
  have 3: "\<forall>doc2. renderResponse net = Rendered doc2
            \<and> estimateTokens (trim (turndownOutput doc)) = 10
            \<and> estimateTokens (trim (turndownOutput doc2)) = 500 \<longrightarrow>
            crawlPage thinPageThreshold p sect net
              = Some (extractFromHtml doc2 (BASE_URL @ p) p sect Playwright (renderClock net))"
    using 2 by simp
  from 1 2 3 show ?thesis
    by (simp only: fetchMethod_extractFromHtml simp_thms)
qed

lemma est_thinDoc: "estimateTokens (trim (turndownOutput thinDoc)) = 10"
  by code_simp

lemma trim_rich: "trim (replicate 2000 (CHR ''x'')) = replicate 2000 (CHR ''x'')"
proof -
  have x: "\<not> isWhiteSpace (CHR ''x'')"
    by (simp add: isWhiteSpace_def)
  have "dropWhile isWhiteSpace (replicate 2000 (CHR ''x'')) = replicate 2000 (CHR ''x'')"
    using x by (simp add: dropWhile_eq_self_iff)
  then show ?thesis
    by (simp add: trim_def trimStart_def trimEnd_def)
qed

lemma est_richDoc: "estimateTokens (trim (turndownOutput richDoc)) = 500"
  by (simp add: richDoc_def trim_rich estimateTokens_def)

theorem crawlPage_escaping_throw_witness:
  "staticResponse (thinNetwork\<lparr>newPageThrows := True\<rparr>) = Ok thinDoc
   \<and> estimateTokens (trim (turndownOutput thinDoc)) < 200
   \<and> crawlPage 200 ''/docs/districts'' ''APIs & Data Model''
         (thinNetwork\<lparr>newPageThrows := True\<rparr>) = None"
proof -
  have a1: "staticResponse (thinNetwork\<lparr>newPageThrows := True\<rparr>) = Ok thinDoc"
    by (simp add: thinNetwork_def)
  have a2: "estimateTokens (trim (turndownOutput thinDoc)) < 200"
    by (simp add: est_thinDoc)
  have a3: "newPageThrows (thinNetwork\<lparr>newPageThrows := True\<rparr>)
            \<or> closeThrows (thinNetwork\<lparr>newPageThrows := True\<rparr>)"
    by simp
  from a1 a2 crawlPage_escaping_throw [OF a1 a2 a3] show ?thesis
    by (intro conjI)
qed

theorem crawlPage_thin_policy_witness:
  "estimateTokens (trim (turndownOutput thinDoc)) = 10
   \<and> estimateTokens (trim (turndownOutput richDoc)) = 500
   \<and> crawlPage 200 ''/docs/districts'' ''APIs & Data Model'' thinNetwork
       = Some (extractFromHtml richDoc (BASE_URL @ ''/docs/districts'') ''/docs/districts''
                 ''APIs & Data Model'' Playwright ''2024-01-01T00:00:03.000Z'')
   \<and> crawlPage 200 ''/docs/districts'' ''APIs & Data Model''
         (thinNetwork\<lparr>renderResponse := RenderThrows\<rparr>)
       = Some (extractFromHtml thinDoc (BASE_URL @ ''/docs/districts'') ''/docs/districts''
                 ''APIs & Data Model'' Static ''2024-01-01T00:00:00.000Z'')"
proof -
  have a1: "staticResponse thinNetwork = Ok thinDoc"
    and a3: "\<not> newPageThrows thinNetwork" and a4: "\<not> closeThrows thinNetwork"
    and r: "renderResponse thinNetwork = Rendered richDoc"
    and k1: "staticClock thinNetwork = ''2024-01-01T00:00:00.000Z''"
    and k2: "renderClock thinNetwork = ''2024-01-01T00:00:03.000Z''"
    by (simp_all add: thinNetwork_def)
  have a2: "estimateTokens (trim (turndownOutput thinDoc)) < 200"
    by (simp add: est_thinDoc)
  note T1 = crawlPage_thin_policy [of thinNetwork thinDoc 200, OF a1 a2 a3 a4,
      of "''/docs/districts''" "''APIs & Data Model''"]
  have c1: "crawlPage 200 ''/docs/districts'' ''APIs & Data Model'' thinNetwork
       = Some (extractFromHtml richDoc (BASE_URL @ ''/docs/districts'') ''/docs/districts''
                 ''APIs & Data Model'' Playwright ''2024-01-01T00:00:03.000Z'')"
    using T1 r est_thinDoc est_richDoc k2 by metis
  let ?n = "thinNetwork\<lparr>renderResponse := RenderThrows\<rparr>"
  have b1: "staticResponse ?n = Ok thinDoc"
    and b3: "\<not> newPageThrows ?n" and b4: "\<not> closeThrows ?n"
    and r2: "renderResponse ?n = RenderThrows"
    and k3: "staticClock ?n = ''2024-01-01T00:00:00.000Z''"
    by (simp_all add: thinNetwork_def)
  note T2 = crawlPage_thin_policy [of ?n thinDoc 200, OF b1 a2 b3 b4,
      of "''/docs/districts''" "''APIs & Data Model''"]
  have c2: "crawlPage 200 ''/docs/districts'' ''APIs & Data Model'' ?n
       = Some (extractFromHtml thinDoc (BASE_URL @ ''/docs/districts'') ''/docs/districts''
                 ''APIs & Data Model'' Static ''2024-01-01T00:00:00.000Z'')"
    using T2 r2 k3 by metis
  from est_thinDoc est_richDoc c1 c2 show ?thesis
    by (intro conjI)
qed



text \<open>
  C6, at a page whose static document is estimated at 10 tokens, below a threshold of
  200, and whose rendered document is estimated at 500. When loading the rendered page
  throws, \<open>fetchWithPlaywright\<close> catches the throw and \<open>crawlPage\<close> returns the static
  result. When instead closing the browser page throws, after the page was rendered, or
  opening it throws, nothing catches the throw before the \<^verbatim>\<open>catch\<close> of \<open>crawlPage\<close>,
  and the page has no result at all: neither the rendered result nor the static one,
  which \<open>fetchStatic\<close> had returned.
\<close>

theorem crawlPage_loses_static_result:
  "fetchStatic ''/docs/districts'' ''APIs & Data Model'' (thinNetwork\<lparr>closeThrows := True\<rparr>)
     = Returns (Some (extractFromHtml thinDoc (BASE_URL @ ''/docs/districts'')
                  ''/docs/districts'' ''APIs & Data Model'' Static ''2024-01-01T00:00:00.000Z''))
   \<and> estimateTokens (trim (turndownOutput thinDoc)) = 10
   \<and> renderResponse (thinNetwork\<lparr>closeThrows := True\<rparr>) = Rendered richDoc
   \<and> estimateTokens (trim (turndownOutput richDoc)) = 500
   \<and> crawlPage 200 ''/docs/districts'' ''APIs & Data Model''
         (thinNetwork\<lparr>closeThrows := True\<rparr>) = None
   \<and> crawlPage 200 ''/docs/districts'' ''APIs & Data Model''
         (thinNetwork\<lparr>newPageThrows := True\<rparr>) = None
   \<and> crawlPage 200 ''/docs/districts'' ''APIs & Data Model''
         (thinNetwork\<lparr>renderResponse := RenderThrows\<rparr>)
       = Some (extractFromHtml thinDoc (BASE_URL @ ''/docs/districts'') ''/docs/districts''
                 ''APIs & Data Model'' Static ''2024-01-01T00:00:00.000Z'')"
proof -
  let ?c = "thinNetwork\<lparr>closeThrows := True\<rparr>"
  let ?o = "thinNetwork\<lparr>newPageThrows := True\<rparr>"
  let ?r = "thinNetwork\<lparr>renderResponse := RenderThrows\<rparr>"
  have thin: "estimateTokens (trim (turndownOutput thinDoc)) < 200"
    by (simp add: est_thinDoc)
  have 1: "fetchStatic ''/docs/districts'' ''APIs & Data Model'' ?c
     = Returns (Some (extractFromHtml thinDoc (BASE_URL @ ''/docs/districts'')
                  ''/docs/districts'' ''APIs & Data Model'' Static ''2024-01-01T00:00:00.000Z''))"
    by (simp add: fetchStatic_def thinNetwork_def)
  have 3: "renderResponse ?c = Rendered richDoc"
    by (simp add: thinNetwork_def)
  have sc: "staticResponse ?c = Ok thinDoc" and so: "staticResponse ?o = Ok thinDoc"
    and sr: "staticResponse ?r = Ok thinDoc"
    by (simp_all add: thinNetwork_def)
  have tc: "newPageThrows ?c \<or> closeThrows ?c" and to: "newPageThrows ?o \<or> closeThrows ?o"
    by simp_all
  have 5: "crawlPage 200 ''/docs/districts'' ''APIs & Data Model'' ?c = None"
    using sc thin tc by (rule crawlPage_escaping_throw)
  have 6: "crawlPage 200 ''/docs/districts'' ''APIs & Data Model'' ?o = None"
    using so thin to by (rule crawlPage_escaping_throw)
  have pw: "fetchWithPlaywright ''/docs/districts'' ''APIs & Data Model'' ?r = Returns None"
    by (simp add: fetchWithPlaywright_def thinNetwork_def)
  have 7: "crawlPage 200 ''/docs/districts'' ''APIs & Data Model'' ?r
       = Some (extractFromHtml thinDoc (BASE_URL @ ''/docs/districts'') ''/docs/districts''
                 ''APIs & Data Model'' Static ''2024-01-01T00:00:00.000Z'')"
    unfolding crawlPage_thin [OF sr thin] pw by (simp add: thinNetwork_def)
  from 1 est_thinDoc 3 est_richDoc 5 6 7 show ?thesis
    by (intro conjI)
qed

lemma hd_splitOn: "hd (splitOn sep s) = takeWhile (\<lambda>c. c \<noteq> sep) s"
proof (induction s)
  case Nil
  then show ?case by simp
next
  case (Cons c s)
  then show ?case
    using splitOn_not_Nil [of sep s] by (auto split: list.splits)
qed

lemma set_discoverLoop:
  "set (discoverLoop hs discovered)
     = set discovered
       \<union> {takeWhile (\<lambda>c. c \<noteq> CHR ''?'') h | h.
            h \<in> set hs \<and> prefix ''/docs/'' h \<and> CHR ''#'' \<notin> set h}"
proof (induction hs arbitrary: discovered)
  case Nil
  then show ?case by simp
next
  case (Cons h hs)
  have e: "\<not> prefix ''/docs/'' []"
    by simp
  show ?case
    using e by (auto simp: Cons.IH Let_def hd_splitOn)
qed

lemma distinct_discoverLoop:
  "distinct discovered \<Longrightarrow> distinct (discoverLoop hs discovered)"
  by (induction hs arbitrary: discovered) (simp_all add: Let_def)

lemma clean_docs_path:
  assumes "prefix ''/docs/'' h" and "CHR ''#'' \<notin> set h"
  shows "prefix ''/docs/'' (takeWhile (\<lambda>c. c \<noteq> CHR ''?'') h)
         \<and> CHR ''#'' \<notin> set (takeWhile (\<lambda>c. c \<noteq> CHR ''?'') h)
         \<and> CHR ''?'' \<notin> set (takeWhile (\<lambda>c. c \<noteq> CHR ''?'') h)"
proof -
  from assms(1) obtain r where h: "h = ''/docs/'' @ r"
    by (auto simp: prefix_def)
  have 1: "prefix ''/docs/'' (takeWhile (\<lambda>c. c \<noteq> CHR ''?'') h)"
    by (simp add: h)
  have 2: "CHR ''#'' \<notin> set (takeWhile (\<lambda>c. c \<noteq> CHR ''?'') h)"
    using assms(2) by (auto dest: set_takeWhileD)
  have 3: "CHR ''?'' \<notin> set (takeWhile (\<lambda>c. c \<noteq> CHR ''?'') h)"
    by (auto dest: set_takeWhileD)
  from 1 2 3 show ?thesis by (intro conjI)
qed

lemma discoveredPaths_extractFromHtml:
  "discoveredPaths (extractFromHtml doc u p sect tag now) = discoverLoop (hrefs doc) []"
  by (simp add: extractFromHtml_def)

lemma discovered_wellformed:
  "\<forall>d\<in>set (discoverLoop hs []).
     prefix ''/docs/'' d \<and> CHR ''#'' \<notin> set d \<and> CHR ''?'' \<notin> set d"
  unfolding set_discoverLoop using clean_docs_path by auto

lemma crawlPage_Some:
  assumes "crawlPage thinPageThreshold p sect net = Some r"
  shows "\<exists>doc tag now. r = extractFromHtml doc (BASE_URL @ p) p sect tag now"
  using assms
  by (auto simp: crawlPage_def fetchStatic_def fetchWithPlaywright_def Let_def
      split: StaticResponse.splits RenderResponse.splits if_splits outcome.splits option.splits)

text \<open>
  C8: the \<open>discoveredPaths\<close> of an extraction has no duplicates; it holds exactly the
  links of the document that start with \<^verbatim>\<open>/docs/\<close> and contain no \<^verbatim>\<open>#\<close>, each cut at
  its first \<^verbatim>\<open>?\<close>; so every path in it starts with \<^verbatim>\<open>/docs/\<close> and contains neither
  \<^verbatim>\<open>#\<close> nor \<^verbatim>\<open>?\<close>. The same holds for the result of every \<open>crawlPage\<close> that
  returns one.
\<close>

theorem discoveredPaths_clean:
  "distinct (discoveredPaths (extractFromHtml doc u p sect tag now))
   \<and> set (discoveredPaths (extractFromHtml doc u p sect tag now))
       = {takeWhile (\<lambda>c. c \<noteq> CHR ''?'') h | h.
            h \<in> set (hrefs doc) \<and> prefix ''/docs/'' h \<and> CHR ''#'' \<notin> set h}
   \<and> (\<forall>d\<in>set (discoveredPaths (extractFromHtml doc u p sect tag now)).
         prefix ''/docs/'' d \<and> CHR ''#'' \<notin> set d \<and> CHR ''?'' \<notin> set d)
   \<and> (\<forall>r. crawlPage thinPageThreshold p sect net = Some r \<longrightarrow>
         distinct (discoveredPaths r)
         \<and> (\<forall>d\<in>set (discoveredPaths r).
               prefix ''/docs/'' d \<and> CHR ''#'' \<notin> set d \<and> CHR ''?'' \<notin> set d))"
proof (intro conjI allI impI)
  show "distinct (discoveredPaths (extractFromHtml doc u p sect tag now))"
    by (simp add: discoveredPaths_extractFromHtml distinct_discoverLoop)
next
  show "set (discoveredPaths (extractFromHtml doc u p sect tag now))
       = {takeWhile (\<lambda>c. c \<noteq> CHR ''?'') h | h.
            h \<in> set (hrefs doc) \<and> prefix ''/docs/'' h \<and> CHR ''#'' \<notin> set h}"
    by (simp add: discoveredPaths_extractFromHtml set_discoverLoop)
next
  show "\<forall>d\<in>set (discoveredPaths (extractFromHtml doc u p sect tag now)).
         prefix ''/docs/'' d \<and> CHR ''#'' \<notin> set d \<and> CHR ''?'' \<notin> set d"
    unfolding discoveredPaths_extractFromHtml by (rule discovered_wellformed)
next
  fix r assume "crawlPage thinPageThreshold p sect net = Some r"
  then obtain d m n where r: "r = extractFromHtml d (BASE_URL @ p) p sect m n"
    using crawlPage_Some by blast
  show "distinct (discoveredPaths r)"
    by (simp add: r discoveredPaths_extractFromHtml distinct_discoverLoop)
  show "\<forall>d\<in>set (discoveredPaths r).
          prefix ''/docs/'' d \<and> CHR ''#'' \<notin> set d \<and> CHR ''?'' \<notin> set d"
    unfolding r discoveredPaths_extractFromHtml by (rule discovered_wellformed)
qed

lemma discovered_thinDoc:
  "discoveredPaths (extractFromHtml thinDoc u p sect tag now) = [''/docs/schools'', ''/docs/users'']"
  unfolding discoveredPaths_extractFromHtml by code_simp

theorem discoveredPaths_clean_witness:
  "discoveredPaths (extractFromHtml thinDoc (BASE_URL @ ''/docs/districts'') ''/docs/districts''
       ''APIs & Data Model'' Static ''2024-01-01T00:00:00.000Z'')
     = [''/docs/schools'', ''/docs/users'']
   \<and> distinct (discoveredPaths (extractFromHtml thinDoc (BASE_URL @ ''/docs/districts'')
         ''/docs/districts'' ''APIs & Data Model'' Static ''2024-01-01T00:00:00.000Z''))
   \<and> prefix ''/docs/'' ''/docs/users'' \<and> CHR ''#'' \<notin> set ''/docs/users''
   \<and> CHR ''?'' \<notin> set ''/docs/users''"
proof -
  let ?r = "extractFromHtml thinDoc (BASE_URL @ ''/docs/districts'') ''/docs/districts''
       ''APIs & Data Model'' Static ''2024-01-01T00:00:00.000Z''"
  note T = discoveredPaths_clean [where doc = thinDoc and u = "BASE_URL @ ''/docs/districts''"
      and p = "''/docs/districts''" and sect = "''APIs & Data Model''" and tag = Static
      and now = "''2024-01-01T00:00:00.000Z''" and thinPageThreshold = 200
      and net = thinNetwork]
  have e: "discoveredPaths ?r = [''/docs/schools'', ''/docs/users'']"
    by (rule discovered_thinDoc)
  from T have d: "distinct (discoveredPaths ?r)"
    by (rule conjunct1)
  from T have "\<forall>d\<in>set (discoveredPaths ?r).
         prefix ''/docs/'' d \<and> CHR ''#'' \<notin> set d \<and> CHR ''?'' \<notin> set d"
    by blast
  moreover have "''/docs/users'' \<in> set (discoveredPaths ?r)"
    unfolding e by simp
  ultimately have w: "prefix ''/docs/'' ''/docs/users'' \<and> CHR ''#'' \<notin> set ''/docs/users''
   \<and> CHR ''?'' \<notin> set ''/docs/users''"
    by blast
  from e d w show ?thesis
    by (intro conjI) simp_all
qed


section \<open>Properties of the frontier crawler\<close>


lemma crawlPage_fields:
  assumes "crawlPage thr p sect net = Some r"
  shows "path r = p \<and> sectionName r = sect"
proof -
  obtain doc tag now where "r = extractFromHtml doc (BASE_URL @ p) p sect tag now"
    using crawlPage_Some [OF assms] by blast
  then show ?thesis by (simp add: extractFromHtml_def)
qed

lemma enqueueDiscovered_extends: "\<exists>extra. enqueueDiscovered ds seen q = q @ extra"
proof (induction ds arbitrary: q)
  case Nil
  then show ?case by simp
next
  case (Cons d ds)
  show ?case
  proof (cases "d \<notin> seen \<and> \<not> list_ex (\<lambda>t. taskPath t = d) q")
    case True
    obtain extra where "enqueueDiscovered ds seen (q @ [\<lparr>taskPath = d, taskSection = ''Discovered''\<rparr>])
        = (q @ [\<lparr>taskPath = d, taskSection = ''Discovered''\<rparr>]) @ extra"
      using Cons [of "q @ [\<lparr>taskPath = d, taskSection = ''Discovered''\<rparr>]"] by blast
    then show ?thesis using True by simp
  next
    case False
    then show ?thesis using Cons [of q] by auto
  qed
qed

lemma find_append_Some: "find P xs = Some t \<Longrightarrow> find P (xs @ ys) = Some t"
  by (induction xs) (auto split: if_splits)

lemma find_snoc_new: "\<forall>x\<in>set xs. \<not> P x \<Longrightarrow> P y \<Longrightarrow> find P (xs @ [y]) = Some y"
  by (induction xs) auto

lemma firstDequeued_keep:
  assumes "firstDequeued s p = Some t" and "dequeued s' = dequeued s @ ys"
  shows "firstDequeued s' p = Some t"
  using assms by (simp add: firstDequeued_def find_append_Some)

lemma in_set_updateD:
  assumes "x \<in> set (ws[i := w])"
  shows "x = w \<or> (\<exists>j<length ws. j \<noteq> i \<and> ws ! j = x)"
proof -
  from assms obtain j where j: "j < length ws" and x: "(ws[i := w]) ! j = x"
    by (auto simp: in_set_conv_nth)
  show ?thesis
  proof (cases "j = i")
    case True
    with j x show ?thesis by simp
  next
    case False
    with j x show ?thesis by auto
  qed
qed

lemma in_set_update_old: "x \<in> set (ws[i := w]) \<Longrightarrow> x \<noteq> w \<Longrightarrow> x \<in> set ws"
  using in_set_updateD [of x ws i w] by auto

lemma exclusive_release:
  assumes "exclusive ws" and "holding w = None"
  shows "exclusive (ws[i := w])"
  unfolding exclusive_def
proof (intro allI impI)
  fix a b t u
  assume a: "a < length (ws[i := w])" and b: "b < length (ws[i := w])"
    and h: "a \<noteq> b \<and> holding (ws[i := w] ! a) = Some t \<and> holding (ws[i := w] ! b) = Some u"
  have "a \<noteq> i" using h a assms(2) by (auto simp: nth_list_update split: if_splits)
  moreover have "b \<noteq> i" using h b assms(2) by (auto simp: nth_list_update split: if_splits)
  ultimately have "holding (ws ! a) = Some t" and "holding (ws ! b) = Some u"
    using h by simp_all
  then show "taskPath t \<noteq> taskPath u"
    using assms(1) a b h unfolding exclusive_def by (metis length_list_update)
qed

lemma exclusive_same:
  assumes "exclusive ws" and "i < length ws" and "holding w = holding (ws ! i)"
  shows "exclusive (ws[i := w])"
proof -
  have "holding (ws[i := w] ! a) = holding (ws ! a)" if "a < length ws" for a
    using that assms(2,3) by (cases "a = i") simp_all
  then show ?thesis
    using assms(1) unfolding exclusive_def by simp
qed

lemma exclusive_new:
  assumes "exclusive ws" and "holding w = Some t"
    and "\<forall>x\<in>set ws. \<forall>u. holding x = Some u \<longrightarrow> taskPath u \<noteq> taskPath t"
  shows "exclusive (ws[i := w])"
  unfolding exclusive_def
proof (intro allI impI)
  fix a b t1 u1
  assume a: "a < length (ws[i := w])" and b: "b < length (ws[i := w])"
    and h: "a \<noteq> b \<and> holding (ws[i := w] ! a) = Some t1 \<and> holding (ws[i := w] ! b) = Some u1"
  have la: "a < length ws" and lb: "b < length ws"
    using a b by simp_all
  show "taskPath t1 \<noteq> taskPath u1"
  proof (cases "a = i")
    case True
    then have "t1 = t" using h la assms(2) by simp
    moreover have "b \<noteq> i" using True h by simp
    then have "holding (ws ! b) = Some u1" using h by simp
    then have "taskPath u1 \<noteq> taskPath t"
      using assms(3) lb nth_mem by blast
    ultimately show ?thesis by simp
  next
    case False
    then have ha: "holding (ws ! a) = Some t1" using h by simp
    show ?thesis
    proof (cases "b = i")
      case True
      then have "u1 = t" using h lb assms(2) by simp
      moreover have "taskPath t1 \<noteq> taskPath t"
        using assms(3) la ha nth_mem by blast
      ultimately show ?thesis by simp
    next
      case False
      then have "holding (ws ! b) = Some u1" using h by simp
      then show ?thesis
        using assms(1) la lb h ha unfolding exclusive_def by blast
    qed
  qed
qed

lemma exclusive_other:
  assumes "exclusive ws" and "i < length ws" and "holding (ws ! i) = Some t"
    and "j < length ws" and "j \<noteq> i" and "holding (ws ! j) = Some u"
  shows "taskPath u \<noteq> taskPath t"
  using assms unfolding exclusive_def by blast

lemma in_set_update_keep:
  assumes "x \<in> set ws" and "i < length ws" and "ws ! i \<noteq> x"
  shows "x \<in> set (ws[i := w])"
proof -
  from assms(1) obtain j where j: "j < length ws" "ws ! j = x"
    by (auto simp: in_set_conv_nth)
  then have "j \<noteq> i" using assms(3) by auto
  then have "(ws[i := w]) ! j = x" using j by simp
  moreover have "j < length (ws[i := w])" using j by simp
  ultimately show ?thesis using nth_mem by metis
qed

lemma crawlInvI:
  assumes "distinct (map taskPath (fetched s))"
    and "\<forall>t\<in>set (fetched s). taskPath t \<in> visited s \<and> firstDequeued s (taskPath t) = Some t"
    and "\<forall>w\<in>set (workers s). \<forall>t. holding w = Some t \<longrightarrow>
            taskPath t \<in> visited s \<and> firstDequeued s (taskPath t) = Some t
            \<and> taskPath t \<notin> path ` set (results s)"
    and "exclusive (workers s)"
    and "\<forall>t. Delaying t \<in> set (workers s) \<longrightarrow> taskPath t \<notin> taskPath ` set (fetched s)"
    and "\<forall>t. Fetching t \<in> set (workers s) \<longrightarrow> t \<in> set (fetched s)"
    and "distinct (map path (results s))"
    and "\<forall>r\<in>set (results s).
            \<lparr>taskPath = path r, taskSection = sectionName r\<rparr> \<in> set (fetched s)"
    and "taskPath ` set (dequeued s) \<subseteq> visited s"
    and "\<exists>added. dequeued s @ queue s = pages @ added"
    and "visited s \<subseteq> taskPath ` set (fetched s)
                      \<union> {taskPath t | t. Delaying t \<in> set (workers s)}"
    and "\<forall>t\<in>set (fetched s).
            Fetching t \<in> set (workers s) \<or> t \<in> set (failures s)
            \<or> taskPath t \<in> path ` set (results s)"
    and "(\<exists>w\<in>set (workers s). w \<noteq> Exited) \<or> queue s = []"
  shows "crawlInv pages s"
  unfolding crawlInv_def using assms by (intro conjI)

lemma crawlInvD:
  assumes "crawlInv pages s"
  shows "distinct (map taskPath (fetched s))"
    and "\<forall>t\<in>set (fetched s). taskPath t \<in> visited s \<and> firstDequeued s (taskPath t) = Some t"
    and "\<forall>w\<in>set (workers s). \<forall>t. holding w = Some t \<longrightarrow>
            taskPath t \<in> visited s \<and> firstDequeued s (taskPath t) = Some t
            \<and> taskPath t \<notin> path ` set (results s)"
    and "exclusive (workers s)"
    and "\<forall>t. Delaying t \<in> set (workers s) \<longrightarrow> taskPath t \<notin> taskPath ` set (fetched s)"
    and "\<forall>t. Fetching t \<in> set (workers s) \<longrightarrow> t \<in> set (fetched s)"
    and "distinct (map path (results s))"
    and "\<forall>r\<in>set (results s).
            \<lparr>taskPath = path r, taskSection = sectionName r\<rparr> \<in> set (fetched s)"
    and "taskPath ` set (dequeued s) \<subseteq> visited s"
    and "\<exists>added. dequeued s @ queue s = pages @ added"
    and "visited s \<subseteq> taskPath ` set (fetched s)
                      \<union> {taskPath t | t. Delaying t \<in> set (workers s)}"
    and "\<forall>t\<in>set (fetched s).
            Fetching t \<in> set (workers s) \<or> t \<in> set (failures s)
            \<or> taskPath t \<in> path ` set (results s)"
    and "(\<exists>w\<in>set (workers s). w \<noteq> Exited) \<or> queue s = []"
proof -
  note c = assms [unfolded crawlInv_def]
  show "distinct (map taskPath (fetched s))"
    by (rule c [THEN conjunct1])
  show "\<forall>t\<in>set (fetched s). taskPath t \<in> visited s \<and> firstDequeued s (taskPath t) = Some t"
    by (rule c [THEN conjunct2, THEN conjunct1])
  show "\<forall>w\<in>set (workers s). \<forall>t. holding w = Some t \<longrightarrow>
            taskPath t \<in> visited s \<and> firstDequeued s (taskPath t) = Some t
            \<and> taskPath t \<notin> path ` set (results s)"
    by (rule c [THEN conjunct2, THEN conjunct2, THEN conjunct1])
  show "exclusive (workers s)"
    by (rule c [THEN conjunct2, THEN conjunct2, THEN conjunct2, THEN conjunct1])
  show "\<forall>t. Delaying t \<in> set (workers s) \<longrightarrow> taskPath t \<notin> taskPath ` set (fetched s)"
    by (rule c [THEN conjunct2, THEN conjunct2, THEN conjunct2, THEN conjunct2, THEN conjunct1])
  show "\<forall>t. Fetching t \<in> set (workers s) \<longrightarrow> t \<in> set (fetched s)"
    by (rule c [THEN conjunct2, THEN conjunct2, THEN conjunct2, THEN conjunct2, THEN conjunct2, THEN conjunct1])
  show "distinct (map path (results s))"
    by (rule c [THEN conjunct2, THEN conjunct2, THEN conjunct2, THEN conjunct2, THEN conjunct2, THEN conjunct2, THEN conjunct1])
  show "\<forall>r\<in>set (results s).
            \<lparr>taskPath = path r, taskSection = sectionName r\<rparr> \<in> set (fetched s)"
    by (rule c [THEN conjunct2, THEN conjunct2, THEN conjunct2, THEN conjunct2, THEN conjunct2, THEN conjunct2, THEN conjunct2, THEN conjunct1])
  show "taskPath ` set (dequeued s) \<subseteq> visited s"
    by (rule c [THEN conjunct2, THEN conjunct2, THEN conjunct2, THEN conjunct2, THEN conjunct2, THEN conjunct2, THEN conjunct2, THEN conjunct2, THEN conjunct1])
  show "\<exists>added. dequeued s @ queue s = pages @ added"
    by (rule c [THEN conjunct2, THEN conjunct2, THEN conjunct2, THEN conjunct2, THEN conjunct2, THEN conjunct2, THEN conjunct2, THEN conjunct2, THEN conjunct2, THEN conjunct1])
  show "visited s \<subseteq> taskPath ` set (fetched s)
                      \<union> {taskPath t | t. Delaying t \<in> set (workers s)}"
    by (rule c [THEN conjunct2, THEN conjunct2, THEN conjunct2, THEN conjunct2, THEN conjunct2, THEN conjunct2, THEN conjunct2, THEN conjunct2, THEN conjunct2, THEN conjunct2, THEN conjunct1])
  show "\<forall>t\<in>set (fetched s).
            Fetching t \<in> set (workers s) \<or> t \<in> set (failures s)
            \<or> taskPath t \<in> path ` set (results s)"
    by (rule c [THEN conjunct2, THEN conjunct2, THEN conjunct2, THEN conjunct2, THEN conjunct2, THEN conjunct2, THEN conjunct2, THEN conjunct2, THEN conjunct2, THEN conjunct2, THEN conjunct2, THEN conjunct1])
  show "(\<exists>w\<in>set (workers s). w \<noteq> Exited) \<or> queue s = []"
    by (rule c [THEN conjunct2, THEN conjunct2, THEN conjunct2, THEN conjunct2, THEN conjunct2, THEN conjunct2, THEN conjunct2, THEN conjunct2, THEN conjunct2, THEN conjunct2, THEN conjunct2, THEN conjunct2])
qed



lemma inv_start: "crawlInv pages (initialState pages)"
proof (rule crawlInvI)
  show "exclusive (workers (initialState pages))"
    by (simp add: exclusive_def initialState_def)
  show "\<forall>w\<in>set (workers (initialState pages)). \<forall>t. holding w = Some t \<longrightarrow>
            taskPath t \<in> visited (initialState pages)
            \<and> firstDequeued (initialState pages) (taskPath t) = Some t
            \<and> taskPath t \<notin> path ` set (results (initialState pages))"
    by (auto simp: initialState_def)
  show "\<exists>added. dequeued (initialState pages) @ queue (initialState pages) = pages @ added"
    by (simp add: initialState_def)
  show "(\<exists>w\<in>set (workers (initialState pages)). w \<noteq> Exited) \<or> queue (initialState pages) = []"
    by (simp add: initialState_def CONCURRENCY_def)
qed (simp_all add: initialState_def)

lemma inv_release:
  assumes inv: "crawlInv pages s" and i: "i < length (workers s)" and w: "holding w = None"
    and nd: "\<forall>t. workers s ! i \<noteq> Delaying t"
    and fl: "set (failures s) \<subseteq> set fl"
    and ft: "\<forall>t. workers s ! i = Fetching t \<longrightarrow> t \<in> set fl"
    and ex: "w = Exited \<longrightarrow> queue s = []"
  shows "crawlInv pages (s\<lparr>workers := (workers s)[i := w], failures := fl\<rparr>)"
proof (rule crawlInvI)
  note D = crawlInvD [OF inv]
  let ?s = "s\<lparr>workers := (workers s)[i := w], failures := fl\<rparr>"
  have fd: "firstDequeued ?s p = firstDequeued s p" for p
    by (simp add: firstDequeued_def)
  have old: "x \<in> set (workers s)" if "x \<in> set (workers ?s)" and "holding x \<noteq> None" for x
  proof -
    have "x \<noteq> w" using that(2) w by auto
    moreover have "x \<in> set ((workers s)[i := w])" using that(1) by simp
    ultimately show ?thesis by (rule in_set_update_old [rotated])
  qed
  show "distinct (map taskPath (fetched ?s))"
    using D(1) by simp
  show "\<forall>t\<in>set (fetched ?s). taskPath t \<in> visited ?s \<and> firstDequeued ?s (taskPath t) = Some t"
    using D(2) by (simp add: fd)
  show "\<forall>x\<in>set (workers ?s). \<forall>t. holding x = Some t \<longrightarrow>
            taskPath t \<in> visited ?s \<and> firstDequeued ?s (taskPath t) = Some t
            \<and> taskPath t \<notin> path ` set (results ?s)"
  proof (intro ballI allI impI)
    fix x t assume "x \<in> set (workers ?s)" and h: "holding x = Some t"
    then have "x \<in> set (workers s)" using old by simp
    with D(3) h show "taskPath t \<in> visited ?s \<and> firstDequeued ?s (taskPath t) = Some t
            \<and> taskPath t \<notin> path ` set (results ?s)"
      by (simp add: fd)
  qed
  show "exclusive (workers ?s)"
    using exclusive_release [OF D(4) w] by simp
  show "\<forall>t. Delaying t \<in> set (workers ?s) \<longrightarrow> taskPath t \<notin> taskPath ` set (fetched ?s)"
  proof (intro allI impI)
    fix t assume "Delaying t \<in> set (workers ?s)"
    then have "Delaying t \<in> set (workers s)" using old [of "Delaying t"] by simp
    with D(5) show "taskPath t \<notin> taskPath ` set (fetched ?s)" by simp
  qed
  show "\<forall>t. Fetching t \<in> set (workers ?s) \<longrightarrow> t \<in> set (fetched ?s)"
  proof (intro allI impI)
    fix t assume "Fetching t \<in> set (workers ?s)"
    then have "Fetching t \<in> set (workers s)" using old [of "Fetching t"] by simp
    with D(6) show "t \<in> set (fetched ?s)" by simp
  qed
  show "distinct (map path (results ?s))"
    using D(7) by simp
  show "\<forall>r\<in>set (results ?s).
            \<lparr>taskPath = path r, taskSection = sectionName r\<rparr> \<in> set (fetched ?s)"
    using D(8) by simp
  show "taskPath ` set (dequeued ?s) \<subseteq> visited ?s"
    using D(9) by simp
  show "\<exists>added. dequeued ?s @ queue ?s = pages @ added"
    using D(10) by simp
  show "visited ?s \<subseteq> taskPath ` set (fetched ?s)
                      \<union> {taskPath t | t. Delaying t \<in> set (workers ?s)}"
  proof
    fix p assume "p \<in> visited ?s"
    then have "p \<in> taskPath ` set (fetched s) \<or> (\<exists>t. p = taskPath t \<and> Delaying t \<in> set (workers s))"
      using D(11) by auto
    then show "p \<in> taskPath ` set (fetched ?s)
                      \<union> {taskPath t | t. Delaying t \<in> set (workers ?s)}"
    proof
      assume "p \<in> taskPath ` set (fetched s)"
      then show ?thesis by simp
    next
      assume "\<exists>t. p = taskPath t \<and> Delaying t \<in> set (workers s)"
      then obtain t where t: "p = taskPath t" "Delaying t \<in> set (workers s)" by blast
      have "Delaying t \<in> set ((workers s)[i := w])"
        using t(2) i nd by (intro in_set_update_keep) simp_all
      then show ?thesis using t(1) by auto
    qed
  qed
  show "\<forall>t\<in>set (fetched ?s).
            Fetching t \<in> set (workers ?s) \<or> t \<in> set (failures ?s)
            \<or> taskPath t \<in> path ` set (results ?s)"
  proof
    fix t assume "t \<in> set (fetched ?s)"
    then have c: "Fetching t \<in> set (workers s) \<or> t \<in> set (failures s)
            \<or> taskPath t \<in> path ` set (results s)"
      using D(12) by simp
    show "Fetching t \<in> set (workers ?s) \<or> t \<in> set (failures ?s)
            \<or> taskPath t \<in> path ` set (results ?s)"
    proof (cases "Fetching t \<in> set (workers s)")
      case True
      show ?thesis
      proof (cases "workers s ! i = Fetching t")
        case True
        then show ?thesis using ft by simp
      next
        case False
        have "Fetching t \<in> set ((workers s)[i := w])"
          using True i False by (intro in_set_update_keep) simp_all
        then show ?thesis by simp
      qed
    next
      case False
      then show ?thesis using c fl by auto
    qed
  qed
  show "(\<exists>x\<in>set (workers ?s). x \<noteq> Exited) \<or> queue ?s = []"
  proof (cases "w = Exited")
    case True
    then show ?thesis using ex by simp
  next
    case False
    have "w \<in> set ((workers s)[i := w])"
      using i by (rule set_update_memI)
    then show ?thesis using False by auto
  qed
qed

lemma inv_skip:
  assumes inv: "crawlInv pages s" and i: "i < length (workers s)"
    and w: "workers s ! i = AtLoopHead" and q: "queue s = item # rest"
    and v: "taskPath item \<in> visited s"
  shows "crawlInv pages (s\<lparr>queue := rest, dequeued := dequeued s @ [item]\<rparr>)"
proof (rule crawlInvI)
  note D = crawlInvD [OF inv]
  let ?s = "s\<lparr>queue := rest, dequeued := dequeued s @ [item]\<rparr>"
  have fd: "firstDequeued ?s p = Some t" if "firstDequeued s p = Some t" for p t
    using that by (rule firstDequeued_keep) simp
  show "distinct (map taskPath (fetched ?s))"
    using D(1) by simp
  show "\<forall>t\<in>set (fetched ?s). taskPath t \<in> visited ?s \<and> firstDequeued ?s (taskPath t) = Some t"
    using D(2) fd by simp
  show "\<forall>x\<in>set (workers ?s). \<forall>t. holding x = Some t \<longrightarrow>
            taskPath t \<in> visited ?s \<and> firstDequeued ?s (taskPath t) = Some t
            \<and> taskPath t \<notin> path ` set (results ?s)"
  proof (intro ballI allI impI)
    fix x t assume "x \<in> set (workers ?s)" and h: "holding x = Some t"
    then have "taskPath t \<in> visited s \<and> firstDequeued s (taskPath t) = Some t
            \<and> taskPath t \<notin> path ` set (results s)"
      using D(3) by simp
    then show "taskPath t \<in> visited ?s \<and> firstDequeued ?s (taskPath t) = Some t
            \<and> taskPath t \<notin> path ` set (results ?s)"
      using fd by simp
  qed
  show "exclusive (workers ?s)"
    using D(4) by simp
  show "\<forall>t. Delaying t \<in> set (workers ?s) \<longrightarrow> taskPath t \<notin> taskPath ` set (fetched ?s)"
    using D(5) by simp
  show "\<forall>t. Fetching t \<in> set (workers ?s) \<longrightarrow> t \<in> set (fetched ?s)"
    using D(6) by simp
  show "distinct (map path (results ?s))"
    using D(7) by simp
  show "\<forall>r\<in>set (results ?s).
            \<lparr>taskPath = path r, taskSection = sectionName r\<rparr> \<in> set (fetched ?s)"
    using D(8) by simp
  show "taskPath ` set (dequeued ?s) \<subseteq> visited ?s"
    using D(9) v by simp
  show "\<exists>added. dequeued ?s @ queue ?s = pages @ added"
    using D(10) q by simp
  show "visited ?s \<subseteq> taskPath ` set (fetched ?s)
                      \<union> {taskPath t | t. Delaying t \<in> set (workers ?s)}"
    using D(11) by simp
  show "\<forall>t\<in>set (fetched ?s).
            Fetching t \<in> set (workers ?s) \<or> t \<in> set (failures ?s)
            \<or> taskPath t \<in> path ` set (results ?s)"
    using D(12) by simp
  show "(\<exists>x\<in>set (workers ?s). x \<noteq> Exited) \<or> queue ?s = []"
  proof -
    have "workers s ! i \<in> set (workers s)" using i by (rule nth_mem)
    then have "\<exists>x\<in>set (workers s). x \<noteq> Exited" using w by auto
    then show ?thesis by simp
  qed
qed

lemma results_visited:
  assumes inv: "crawlInv pages s" and r: "r \<in> set (results s)"
  shows "path r \<in> visited s"
proof -
  note D = crawlInvD [OF inv]
  have "\<lparr>taskPath = path r, taskSection = sectionName r\<rparr> \<in> set (fetched s)"
    using D(8) r by blast
  then have "taskPath \<lparr>taskPath = path r, taskSection = sectionName r\<rparr> \<in> visited s"
    using D(2) by blast
  then show ?thesis by simp
qed

lemma inv_claim:
  assumes inv: "crawlInv pages s" and i: "i < length (workers s)"
    and w: "workers s ! i = AtLoopHead" and q: "queue s = item # rest"
    and v: "taskPath item \<notin> visited s"
  shows "crawlInv pages
           (s\<lparr>queue := rest, visited := insert (taskPath item) (visited s),
              workers := (workers s)[i := Delaying item],
              dequeued := dequeued s @ [item]\<rparr>)"
proof (rule crawlInvI)
  note D = crawlInvD [OF inv]
  let ?s = "s\<lparr>queue := rest, visited := insert (taskPath item) (visited s),
              workers := (workers s)[i := Delaying item],
              dequeued := dequeued s @ [item]\<rparr>"
  have fd: "firstDequeued ?s p = Some t" if "firstDequeued s p = Some t" for p t
    using that by (rule firstDequeued_keep) simp
  have "\<forall>x\<in>set (dequeued s). \<not> taskPath x = taskPath item"
    using D(9) v by auto
  then have "find (\<lambda>t. taskPath t = taskPath item) (dequeued s @ [item]) = Some item"
    by (rule find_snoc_new) simp
  then have new: "firstDequeued ?s (taskPath item) = Some item"
    by (simp add: firstDequeued_def)
  have nores: "taskPath item \<notin> path ` set (results s)"
    using results_visited [OF inv] v by auto
  have nofet: "taskPath item \<notin> taskPath ` set (fetched s)"
    using D(2) v by auto
  have others: "\<forall>x\<in>set (workers s). \<forall>u. holding x = Some u \<longrightarrow> taskPath u \<noteq> taskPath item"
    using D(3) v by auto
  have mine: "Delaying item \<in> set ((workers s)[i := Delaying item])"
    using i by (rule set_update_memI)
  have keep: "x \<in> set ((workers s)[i := Delaying item])"
    if "x \<in> set (workers s)" and "x \<noteq> AtLoopHead" for x
    using that i w by (intro in_set_update_keep) simp_all
  show "distinct (map taskPath (fetched ?s))"
    using D(1) by simp
  show "\<forall>t\<in>set (fetched ?s). taskPath t \<in> visited ?s \<and> firstDequeued ?s (taskPath t) = Some t"
    using D(2) fd by simp
  show "\<forall>x\<in>set (workers ?s). \<forall>t. holding x = Some t \<longrightarrow>
            taskPath t \<in> visited ?s \<and> firstDequeued ?s (taskPath t) = Some t
            \<and> taskPath t \<notin> path ` set (results ?s)"
  proof (intro ballI allI impI)
    fix x t assume x: "x \<in> set (workers ?s)" and h: "holding x = Some t"
    show "taskPath t \<in> visited ?s \<and> firstDequeued ?s (taskPath t) = Some t
            \<and> taskPath t \<notin> path ` set (results ?s)"
    proof (cases "x = Delaying item")
      case True
      then have "t = item" using h by simp
      then show ?thesis using new nores by simp
    next
      case False
      then have "x \<in> set (workers s)"
        using x in_set_update_old [of x "workers s" i "Delaying item"] by simp
      then have "taskPath t \<in> visited s \<and> firstDequeued s (taskPath t) = Some t
            \<and> taskPath t \<notin> path ` set (results s)"
        using D(3) h by blast
      then show ?thesis using fd by simp
    qed
  qed
  show "exclusive (workers ?s)"
    using exclusive_new [OF D(4) _ others, of "Delaying item" i] by simp
  show "\<forall>t. Delaying t \<in> set (workers ?s) \<longrightarrow> taskPath t \<notin> taskPath ` set (fetched ?s)"
  proof (intro allI impI)
    fix t assume x: "Delaying t \<in> set (workers ?s)"
    show "taskPath t \<notin> taskPath ` set (fetched ?s)"
    proof (cases "t = item")
      case True
      then show ?thesis using nofet by simp
    next
      case False
      then have "Delaying t \<in> set (workers s)"
        using x in_set_update_old [of "Delaying t" "workers s" i "Delaying item"] by simp
      then show ?thesis using D(5) by simp
    qed
  qed
  show "\<forall>t. Fetching t \<in> set (workers ?s) \<longrightarrow> t \<in> set (fetched ?s)"
  proof (intro allI impI)
    fix t assume x: "Fetching t \<in> set (workers ?s)"
    then have "Fetching t \<in> set (workers s)"
      using in_set_update_old [of "Fetching t" "workers s" i "Delaying item"] by simp
    then show "t \<in> set (fetched ?s)" using D(6) by simp
  qed
  show "distinct (map path (results ?s))"
    using D(7) by simp
  show "\<forall>r\<in>set (results ?s).
            \<lparr>taskPath = path r, taskSection = sectionName r\<rparr> \<in> set (fetched ?s)"
    using D(8) by simp
  show "taskPath ` set (dequeued ?s) \<subseteq> visited ?s"
    using D(9) by auto
  show "\<exists>added. dequeued ?s @ queue ?s = pages @ added"
    using D(10) q by simp
  show "visited ?s \<subseteq> taskPath ` set (fetched ?s)
                      \<union> {taskPath t | t. Delaying t \<in> set (workers ?s)}"
  proof
    fix p assume "p \<in> visited ?s"
    then have "p = taskPath item \<or> p \<in> visited s" by simp
    then show "p \<in> taskPath ` set (fetched ?s)
                      \<union> {taskPath t | t. Delaying t \<in> set (workers ?s)}"
    proof
      assume "p = taskPath item"
      then show ?thesis using mine by auto
    next
      assume "p \<in> visited s"
      then have "p \<in> taskPath ` set (fetched s) \<or> (\<exists>t. p = taskPath t \<and> Delaying t \<in> set (workers s))"
        using D(11) by auto
      then show ?thesis
      proof
        assume "p \<in> taskPath ` set (fetched s)"
        then show ?thesis by simp
      next
        assume "\<exists>t. p = taskPath t \<and> Delaying t \<in> set (workers s)"
        then obtain t where t: "p = taskPath t" "Delaying t \<in> set (workers s)" by blast
        have "Delaying t \<in> set ((workers s)[i := Delaying item])"
          using t(2) by (rule keep) simp
        then show ?thesis using t(1) by auto
      qed
    qed
  qed
  show "\<forall>t\<in>set (fetched ?s).
            Fetching t \<in> set (workers ?s) \<or> t \<in> set (failures ?s)
            \<or> taskPath t \<in> path ` set (results ?s)"
  proof
    fix t assume "t \<in> set (fetched ?s)"
    then have c: "Fetching t \<in> set (workers s) \<or> t \<in> set (failures s)
            \<or> taskPath t \<in> path ` set (results s)"
      using D(12) by simp
    show "Fetching t \<in> set (workers ?s) \<or> t \<in> set (failures ?s)
            \<or> taskPath t \<in> path ` set (results ?s)"
    proof (cases "Fetching t \<in> set (workers s)")
      case True
      then have "Fetching t \<in> set ((workers s)[i := Delaying item])"
        by (rule keep) simp
      then show ?thesis by simp
    next
      case False
      then show ?thesis using c by auto
    qed
  qed
  show "(\<exists>x\<in>set (workers ?s). x \<noteq> Exited) \<or> queue ?s = []"
    using mine by auto
qed



lemma inv_call:
  assumes inv: "crawlInv pages s" and i: "i < length (workers s)"
    and w: "workers s ! i = Delaying item"
  shows "crawlInv pages
           (s\<lparr>workers := (workers s)[i := Fetching item], fetched := fetched s @ [item]\<rparr>)"
proof (rule crawlInvI)
  note D = crawlInvD [OF inv]
  let ?s = "s\<lparr>workers := (workers s)[i := Fetching item], fetched := fetched s @ [item]\<rparr>"
  have fd: "firstDequeued ?s p = firstDequeued s p" for p
    by (simp add: firstDequeued_def)
  have mem: "Delaying item \<in> set (workers s)"
    using i w nth_mem by metis
  have it: "taskPath item \<in> visited s \<and> firstDequeued s (taskPath item) = Some item
            \<and> taskPath item \<notin> path ` set (results s)"
    using D(3) mem by simp
  have nofet: "taskPath item \<notin> taskPath ` set (fetched s)"
    using D(5) mem by simp
  have hi: "holding (workers s ! i) = Some item"
    using w by simp
  show "distinct (map taskPath (fetched ?s))"
    using D(1) nofet by simp
  show "\<forall>t\<in>set (fetched ?s). taskPath t \<in> visited ?s \<and> firstDequeued ?s (taskPath t) = Some t"
    using D(2) it by (simp add: fd)
  show "\<forall>x\<in>set (workers ?s). \<forall>t. holding x = Some t \<longrightarrow>
            taskPath t \<in> visited ?s \<and> firstDequeued ?s (taskPath t) = Some t
            \<and> taskPath t \<notin> path ` set (results ?s)"
  proof (intro ballI allI impI)
    fix x t assume x: "x \<in> set (workers ?s)" and h: "holding x = Some t"
    show "taskPath t \<in> visited ?s \<and> firstDequeued ?s (taskPath t) = Some t
            \<and> taskPath t \<notin> path ` set (results ?s)"
    proof (cases "x = Fetching item")
      case True
      then have "t = item" using h by simp
      then show ?thesis using it by (simp add: fd)
    next
      case False
      then have "x \<in> set (workers s)"
        using x in_set_update_old [of x "workers s" i "Fetching item"] by simp
      then show ?thesis using D(3) h by (simp add: fd)
    qed
  qed
  show "exclusive (workers ?s)"
    using exclusive_same [OF D(4) i, of "Fetching item"] w by simp
  show "\<forall>t. Delaying t \<in> set (workers ?s) \<longrightarrow> taskPath t \<notin> taskPath ` set (fetched ?s)"
  proof (intro allI impI)
    fix t assume "Delaying t \<in> set (workers ?s)"
    then have "Delaying t \<in> set ((workers s)[i := Fetching item])" by simp
    then obtain j where j: "j < length (workers s)" "j \<noteq> i" "workers s ! j = Delaying t"
      using in_set_updateD [of "Delaying t" "workers s" i "Fetching item"] by auto
    have "Delaying t \<in> set (workers s)"
      using j nth_mem by metis
    then have a: "taskPath t \<notin> taskPath ` set (fetched s)"
      using D(5) by simp
    have "holding (workers s ! j) = Some t" using j by simp
    then have b: "taskPath t \<noteq> taskPath item"
      using exclusive_other [OF D(4) i hi j(1) j(2)] by simp
    from a b show "taskPath t \<notin> taskPath ` set (fetched ?s)" by auto
  qed
  show "\<forall>t. Fetching t \<in> set (workers ?s) \<longrightarrow> t \<in> set (fetched ?s)"
  proof (intro allI impI)
    fix t assume x: "Fetching t \<in> set (workers ?s)"
    show "t \<in> set (fetched ?s)"
    proof (cases "t = item")
      case True
      then show ?thesis by simp
    next
      case False
      then have "Fetching t \<in> set (workers s)"
        using x in_set_update_old [of "Fetching t" "workers s" i "Fetching item"] by simp
      then show ?thesis using D(6) by simp
    qed
  qed
  show "distinct (map path (results ?s))"
    using D(7) by simp
  show "\<forall>r\<in>set (results ?s).
            \<lparr>taskPath = path r, taskSection = sectionName r\<rparr> \<in> set (fetched ?s)"
    using D(8) by simp
  show "taskPath ` set (dequeued ?s) \<subseteq> visited ?s"
    using D(9) by simp
  show "\<exists>added. dequeued ?s @ queue ?s = pages @ added"
    using D(10) by simp
  have mine: "Fetching item \<in> set ((workers s)[i := Fetching item])"
    using i by (rule set_update_memI)
  show "visited ?s \<subseteq> taskPath ` set (fetched ?s)
                      \<union> {taskPath t | t. Delaying t \<in> set (workers ?s)}"
  proof
    fix p assume "p \<in> visited ?s"
    then have "p \<in> taskPath ` set (fetched s) \<or> (\<exists>t. p = taskPath t \<and> Delaying t \<in> set (workers s))"
      using D(11) by auto
    then show "p \<in> taskPath ` set (fetched ?s)
                      \<union> {taskPath t | t. Delaying t \<in> set (workers ?s)}"
    proof
      assume "p \<in> taskPath ` set (fetched s)"
      then show ?thesis by auto
    next
      assume "\<exists>t. p = taskPath t \<and> Delaying t \<in> set (workers s)"
      then obtain t where t: "p = taskPath t" "Delaying t \<in> set (workers s)" by blast
      show ?thesis
      proof (cases "t = item")
        case True
        then show ?thesis using t(1) by simp
      next
        case False
        have "Delaying t \<in> set ((workers s)[i := Fetching item])"
          using t(2) i w False by (intro in_set_update_keep) simp_all
        then show ?thesis using t(1) by auto
      qed
    qed
  qed
  show "\<forall>t\<in>set (fetched ?s).
            Fetching t \<in> set (workers ?s) \<or> t \<in> set (failures ?s)
            \<or> taskPath t \<in> path ` set (results ?s)"
  proof
    fix t assume t: "t \<in> set (fetched ?s)"
    show "Fetching t \<in> set (workers ?s) \<or> t \<in> set (failures ?s)
            \<or> taskPath t \<in> path ` set (results ?s)"
    proof (cases "t = item")
      case True
      then show ?thesis using mine by simp
    next
      case False
      then have "t \<in> set (fetched s)" using t by simp
      then have c: "Fetching t \<in> set (workers s) \<or> t \<in> set (failures s)
            \<or> taskPath t \<in> path ` set (results s)"
        using D(12) by simp
      show ?thesis
      proof (cases "Fetching t \<in> set (workers s)")
        case True
        then have "Fetching t \<in> set ((workers s)[i := Fetching item])"
          using i w by (intro in_set_update_keep) simp_all
        then show ?thesis by simp
      next
        case False
        then show ?thesis using c by auto
      qed
    qed
  qed
  show "(\<exists>x\<in>set (workers ?s). x \<noteq> Exited) \<or> queue ?s = []"
    using mine by auto
qed

lemma inv_finished:
  assumes inv: "crawlInv pages s" and i: "i < length (workers s)"
    and w: "workers s ! i = Fetching item"
    and r: "path r = taskPath item" "sectionName r = taskSection item"
    and q': "\<exists>extra. q' = queue s @ extra"
  shows "crawlInv pages
           (s\<lparr>queue := q', results := results s @ [r],
              workers := (workers s)[i := AtLoopHead]\<rparr>)"
proof (rule crawlInvI)
  note D = crawlInvD [OF inv]
  let ?s = "s\<lparr>queue := q', results := results s @ [r],
              workers := (workers s)[i := AtLoopHead]\<rparr>"
  have fd: "firstDequeued ?s p = firstDequeued s p" for p
    by (simp add: firstDequeued_def)
  have mem: "Fetching item \<in> set (workers s)"
    using i w nth_mem by metis
  have it: "taskPath item \<in> visited s \<and> firstDequeued s (taskPath item) = Some item
            \<and> taskPath item \<notin> path ` set (results s)"
    using D(3) mem by simp
  have hi: "holding (workers s ! i) = Some item"
    using w by simp
  have item: "\<lparr>taskPath = path r, taskSection = sectionName r\<rparr> = item"
    using r by simp
  show "distinct (map taskPath (fetched ?s))"
    using D(1) by simp
  show "\<forall>t\<in>set (fetched ?s). taskPath t \<in> visited ?s \<and> firstDequeued ?s (taskPath t) = Some t"
    using D(2) by (simp add: fd)
  show "\<forall>x\<in>set (workers ?s). \<forall>t. holding x = Some t \<longrightarrow>
            taskPath t \<in> visited ?s \<and> firstDequeued ?s (taskPath t) = Some t
            \<and> taskPath t \<notin> path ` set (results ?s)"
  proof (intro ballI allI impI)
    fix x t assume "x \<in> set (workers ?s)" and h: "holding x = Some t"
    then have "x \<in> set ((workers s)[i := AtLoopHead])" by simp
    then obtain j where j: "j < length (workers s)" "j \<noteq> i" "workers s ! j = x"
      using in_set_updateD [of x "workers s" i AtLoopHead] h by auto
    have "x \<in> set (workers s)"
      using j nth_mem by metis
    then have a: "taskPath t \<in> visited s \<and> firstDequeued s (taskPath t) = Some t
            \<and> taskPath t \<notin> path ` set (results s)"
      using D(3) h by blast
    have "holding (workers s ! j) = Some t" using j h by simp
    then have b: "taskPath t \<noteq> taskPath item"
      using exclusive_other [OF D(4) i hi j(1) j(2)] by simp
    from a b r show "taskPath t \<in> visited ?s \<and> firstDequeued ?s (taskPath t) = Some t
            \<and> taskPath t \<notin> path ` set (results ?s)"
      by (auto simp: fd)
  qed
  show "exclusive (workers ?s)"
    using exclusive_release [OF D(4), of AtLoopHead i] by simp
  show "\<forall>t. Delaying t \<in> set (workers ?s) \<longrightarrow> taskPath t \<notin> taskPath ` set (fetched ?s)"
  proof (intro allI impI)
    fix t assume "Delaying t \<in> set (workers ?s)"
    then have "Delaying t \<in> set (workers s)"
      using in_set_update_old [of "Delaying t" "workers s" i AtLoopHead] by simp
    then show "taskPath t \<notin> taskPath ` set (fetched ?s)" using D(5) by simp
  qed
  show "\<forall>t. Fetching t \<in> set (workers ?s) \<longrightarrow> t \<in> set (fetched ?s)"
  proof (intro allI impI)
    fix t assume "Fetching t \<in> set (workers ?s)"
    then have "Fetching t \<in> set (workers s)"
      using in_set_update_old [of "Fetching t" "workers s" i AtLoopHead] by simp
    then show "t \<in> set (fetched ?s)" using D(6) by simp
  qed
  show "distinct (map path (results ?s))"
    using D(7) it r by simp
  show "\<forall>x\<in>set (results ?s).
            \<lparr>taskPath = path x, taskSection = sectionName x\<rparr> \<in> set (fetched ?s)"
    using D(8) D(6) mem item by auto
  show "taskPath ` set (dequeued ?s) \<subseteq> visited ?s"
    using D(9) by simp
  show "\<exists>added. dequeued ?s @ queue ?s = pages @ added"
  proof -
    from D(10) obtain added where a: "dequeued s @ queue s = pages @ added" by blast
    from q' obtain extra where e: "q' = queue s @ extra" by blast
    have "dequeued s @ q' = pages @ (added @ extra)"
      using a e by simp
    then show ?thesis by auto
  qed
  have mine: "AtLoopHead \<in> set ((workers s)[i := AtLoopHead])"
    using i by (rule set_update_memI)
  show "visited ?s \<subseteq> taskPath ` set (fetched ?s)
                      \<union> {taskPath t | t. Delaying t \<in> set (workers ?s)}"
  proof
    fix p assume "p \<in> visited ?s"
    then have "p \<in> taskPath ` set (fetched s) \<or> (\<exists>t. p = taskPath t \<and> Delaying t \<in> set (workers s))"
      using D(11) by auto
    then show "p \<in> taskPath ` set (fetched ?s)
                      \<union> {taskPath t | t. Delaying t \<in> set (workers ?s)}"
    proof
      assume "p \<in> taskPath ` set (fetched s)"
      then show ?thesis by auto
    next
      assume "\<exists>t. p = taskPath t \<and> Delaying t \<in> set (workers s)"
      then obtain t where t: "p = taskPath t" "Delaying t \<in> set (workers s)" by blast
      have "Delaying t \<in> set ((workers s)[i := AtLoopHead])"
        using t(2) i w by (intro in_set_update_keep) simp_all
      then show ?thesis using t(1) by auto
    qed
  qed
  show "\<forall>t\<in>set (fetched ?s).
            Fetching t \<in> set (workers ?s) \<or> t \<in> set (failures ?s)
            \<or> taskPath t \<in> path ` set (results ?s)"
  proof
    fix t assume "t \<in> set (fetched ?s)"
    then have c: "Fetching t \<in> set (workers s) \<or> t \<in> set (failures s)
            \<or> taskPath t \<in> path ` set (results s)"
      using D(12) by simp
    show "Fetching t \<in> set (workers ?s) \<or> t \<in> set (failures ?s)
            \<or> taskPath t \<in> path ` set (results ?s)"
    proof (cases "t = item")
      case True
      then show ?thesis using r by simp
    next
      case False
      show ?thesis
      proof (cases "Fetching t \<in> set (workers s)")
        case True
        then have "Fetching t \<in> set ((workers s)[i := AtLoopHead])"
          using i w False by (intro in_set_update_keep) simp_all
        then show ?thesis by simp
      next
        case False
        then show ?thesis using c by auto
      qed
    qed
  qed
  show "(\<exists>x\<in>set (workers ?s). x \<noteq> Exited) \<or> queue ?s = []"
    using mine by auto
qed

lemma step_inv:
  assumes "step thr s s'" and "crawlInv pages s"
  shows "crawlInv pages s'"
  using assms
proof (cases rule: step.cases)
  case (leave i)
  have "s\<lparr>workers := (workers s)[i := Exited]\<rparr>
      = s\<lparr>workers := (workers s)[i := Exited], failures := failures s\<rparr>"
    by simp
  moreover have "crawlInv pages (s\<lparr>workers := (workers s)[i := Exited], failures := failures s\<rparr>)"
    using leave by (intro inv_release [OF assms(2)]) simp_all
  ultimately show ?thesis using leave(1) by simp
next
  case (skip i item rest)
  then show ?thesis using inv_skip [OF assms(2)] by simp
next
  case (claim i item rest)
  then show ?thesis using inv_claim [OF assms(2)] by simp
next
  case (call i item)
  then show ?thesis using inv_call [OF assms(2)] by simp
next
  case (failed i item net)
  have "crawlInv pages
      (s\<lparr>workers := (workers s)[i := AtLoopHead], failures := failures s @ [item]\<rparr>)"
    using failed by (intro inv_release [OF assms(2)]) auto
  then show ?thesis using failed(1) by simp
next
  case (finished i item net r)
  have f: "path r = taskPath item" "sectionName r = taskSection item"
    using crawlPage_fields [OF finished(4)] by simp_all
  have e: "\<exists>extra. enqueueDiscovered (discoveredPaths r) (visited s) (queue s) = queue s @ extra"
    by (rule enqueueDiscovered_extends)
  show ?thesis
    unfolding finished(1) using finished(2,3) f e by (intro inv_finished [OF assms(2)])
qed

lemma reachable_inv: "reachable thr pages s \<Longrightarrow> crawlInv pages s"
proof (induction rule: reachable.induct)
  case start
  then show ?case by (rule inv_start)
next
  case (after s s')
  then show ?case using step_inv by blast
qed



lemma filter_key_le_1:
  "distinct (map f xs) \<Longrightarrow> length (filter (\<lambda>x. f x = a) xs) \<le> 1"
proof (induction xs)
  case Nil
  then show ?case by simp
next
  case (Cons x xs)
  show ?case
  proof (cases "f x = a")
    case True
    have "f x \<notin> f ` set xs"
      using Cons.prems by simp
    then have "\<forall>y\<in>set xs. f y \<noteq> a"
      using True by blast
    then have "filter (\<lambda>x. f x = a) xs = []"
      by (simp add: filter_empty_conv)
    then show ?thesis using True by simp
  next
    case False
    then show ?thesis using Cons by simp
  qed
qed

lemma first_seed:
  assumes inv: "crawlInv pages s" and r: "r \<in> set (results s)"
  shows "firstDequeued s (path r) = Some \<lparr>taskPath = path r, taskSection = sectionName r\<rparr>"
    and "find (\<lambda>t. taskPath t = path r) pages = Some t0 \<Longrightarrow> sectionName r = taskSection t0"
proof -
  note D = crawlInvD [OF inv]
  let ?t = "\<lparr>taskPath = path r, taskSection = sectionName r\<rparr>"
  have "?t \<in> set (fetched s)"
    using D(8) r by blast
  then have "firstDequeued s (taskPath ?t) = Some ?t"
    using D(2) by blast
  then show f: "firstDequeued s (path r) = Some ?t"
    by simp
  assume p: "find (\<lambda>t. taskPath t = path r) pages = Some t0"
  from D(10) obtain added where a: "dequeued s @ queue s = pages @ added" by blast
  have "find (\<lambda>t. taskPath t = path r) (dequeued s @ queue s) = Some ?t"
    using f unfolding firstDequeued_def by (rule find_append_Some)
  moreover have "find (\<lambda>t. taskPath t = path r) (pages @ added) = Some t0"
    using p by (rule find_append_Some)
  ultimately have "?t = t0"
    using a by simp
  then have "taskSection ?t = taskSection t0"
    by (rule arg_cong)
  then show "sectionName r = taskSection t0"
    by simp
qed

lemma complete_one_result:
  assumes inv: "crawlInv pages s" and ex: "\<forall>w\<in>set (workers s). w = Exited"
  shows "queue s = []"
    and "t \<in> set pages \<Longrightarrow> taskPath t \<notin> taskPath ` set (failures s) \<Longrightarrow>
         length (filter (\<lambda>r. path r = taskPath t) (results s)) = 1"
proof -
  note D = crawlInvD [OF inv]
  show q: "queue s = []"
    using D(13) ex by blast
  assume t: "t \<in> set pages" and nf: "taskPath t \<notin> taskPath ` set (failures s)"
  from D(10) q obtain added where "dequeued s = pages @ added"
    by auto
  then have "t \<in> set (dequeued s)"
    using t by simp
  then have "taskPath t \<in> visited s"
    using D(9) by auto
  moreover have "\<not> (\<exists>u. Delaying u \<in> set (workers s))"
    using ex by auto
  ultimately have "taskPath t \<in> taskPath ` set (fetched s)"
    using D(11) by auto
  then obtain u where u: "u \<in> set (fetched s)" "taskPath u = taskPath t"
    by auto
  have "Fetching u \<notin> set (workers s)"
    using ex by auto
  moreover have "u \<notin> set (failures s)"
    using nf u(2) by (metis imageI)
  ultimately have "taskPath u \<in> path ` set (results s)"
    using D(12) u(1) by blast
  then obtain r where "r \<in> set (results s)" "path r = taskPath t"
    using u(2) by auto
  then have "filter (\<lambda>r. path r = taskPath t) (results s) \<noteq> []"
    by (auto simp: filter_empty_conv)
  then have "1 \<le> length (filter (\<lambda>r. path r = taskPath t) (results s))"
    by (simp add: Suc_le_eq)
  moreover have "length (filter (\<lambda>r. path r = taskPath t) (results s)) \<le> 1"
    using filter_key_le_1 [OF D(7)] by simp
  ultimately show "length (filter (\<lambda>r. path r = taskPath t) (results s)) = 1"
    by simp
qed

text \<open>
  C9: in every state \<open>crawlAll\<close> can reach, whatever the seed list, the interleaving of
  the workers and the outcomes of the fetches: no path has been fetched twice; every
  fetched path is visited (the step that takes a task off the queue checks and marks
  its path before any other worker runs, and the fetch comes after it); no two results
  have the same path, so any path has at most one result; the result of a path carries
  the section of the first task of that path taken off the queue, which for a path
  among the seeds is the first seed of that path; and once all workers have left, the
  queue is empty and every seed path whose fetch did not fail has exactly one result.
\<close>

theorem crawlAll_fetches_once:
  assumes "reachable thr pages s"
  shows "distinct (map taskPath (fetched s))
     \<and> taskPath ` set (fetched s) \<subseteq> visited s
     \<and> distinct (map path (results s))
     \<and> (\<forall>p. length (filter (\<lambda>r. path r = p) (results s)) \<le> 1)
     \<and> (\<forall>r\<in>set (results s).
           firstDequeued s (path r) = Some \<lparr>taskPath = path r, taskSection = sectionName r\<rparr>
           \<and> (\<forall>t0. find (\<lambda>t. taskPath t = path r) pages = Some t0 \<longrightarrow>
                  sectionName r = taskSection t0))
     \<and> ((\<forall>w\<in>set (workers s). w = Exited) \<longrightarrow>
           queue s = []
           \<and> (\<forall>t\<in>set pages. taskPath t \<notin> taskPath ` set (failures s) \<longrightarrow>
                  length (filter (\<lambda>r. path r = taskPath t) (results s)) = 1))"
proof -
  have inv: "crawlInv pages s"
    using assms by (rule reachable_inv)
  note D = crawlInvD [OF inv]
  have 1: "taskPath ` set (fetched s) \<subseteq> visited s"
    using D(2) by auto
  have 2: "\<forall>p. length (filter (\<lambda>r. path r = p) (results s)) \<le> 1"
    using filter_key_le_1 [OF D(7)] by simp
  have 3: "\<forall>r\<in>set (results s).
           firstDequeued s (path r) = Some \<lparr>taskPath = path r, taskSection = sectionName r\<rparr>
           \<and> (\<forall>t0. find (\<lambda>t. taskPath t = path r) pages = Some t0 \<longrightarrow>
                  sectionName r = taskSection t0)"
    using first_seed [OF inv] by blast
  have 4: "(\<forall>w\<in>set (workers s). w = Exited) \<longrightarrow>
           queue s = []
           \<and> (\<forall>t\<in>set pages. taskPath t \<notin> taskPath ` set (failures s) \<longrightarrow>
                  length (filter (\<lambda>r. path r = taskPath t) (results s)) = 1)"
    using complete_one_result [OF inv] by blast
  from D(1) 1 D(7) 2 3 4 show ?thesis
    by (intro conjI)
qed

lemma five_workers:
  "replicate CONCURRENCY AtLoopHead = [AtLoopHead, AtLoopHead, AtLoopHead, AtLoopHead, AtLoopHead]"
  by (simp add: CONCURRENCY_def numeral_eq_Suc)

lemma crawlPage_shared:
  "crawlPage 200 ''/docs/districts'' ''APIs & Data Model'' leafNetwork = Some sharedResult"
proof -
  have a1: "staticResponse leafNetwork = Ok (thinDoc\<lparr>hrefs := []\<rparr>)"
    and a3: "\<not> newPageThrows leafNetwork" and a4: "\<not> closeThrows leafNetwork"
    and r: "renderResponse leafNetwork = Rendered (richDoc\<lparr>hrefs := []\<rparr>)"
    and k2: "renderClock leafNetwork = ''2024-01-01T00:00:03.000Z''"
    by (simp_all add: leafNetwork_def thinNetwork_def)
  have e1: "estimateTokens (trim (turndownOutput (thinDoc\<lparr>hrefs := []\<rparr>))) = 10"
    using est_thinDoc by simp
  have e2: "estimateTokens (trim (turndownOutput (richDoc\<lparr>hrefs := []\<rparr>))) = 500"
    using est_richDoc by simp
  have a2: "estimateTokens (trim (turndownOutput (thinDoc\<lparr>hrefs := []\<rparr>))) < 200"
    by (simp only: e1)
  have pw: "fetchWithPlaywright ''/docs/districts'' ''APIs & Data Model'' leafNetwork
      = Returns (Some sharedResult)"
    by (simp add: fetchWithPlaywright_def a3 a4 r k2 sharedResult_def)
  show ?thesis
    unfolding crawlPage_thin [OF a1 a2] pw
    by (simp add: sharedResult_def markdown_extractFromHtml est_thinDoc est_richDoc)
qed

lemma discovered_shared: "discoveredPaths sharedResult = []"
  by (simp add: sharedResult_def discoveredPaths_extractFromHtml)

lemma reachable_sharedEnd: "reachable 200 sharedSeeds sharedEnd"
proof -
  define t1 where "t1 = \<lparr>taskPath = ''/docs/districts'', taskSection = ''APIs & Data Model''\<rparr>"
  define t2 where
    "t2 = \<lparr>taskPath = ''/docs/districts'', taskSection = ''District Rostering (Secure Sync)''\<rparr>"
  define s0 where "s0 = \<lparr>queue = [t1, t2], visited = {}, results = [],
      workers = [AtLoopHead, AtLoopHead, AtLoopHead, AtLoopHead, AtLoopHead],
      dequeued = [], fetched = [], failures = []\<rparr>"
  define s1 where "s1 = \<lparr>queue = [t2], visited = {''/docs/districts''}, results = [],
      workers = [Delaying t1, AtLoopHead, AtLoopHead, AtLoopHead, AtLoopHead],
      dequeued = [t1], fetched = [], failures = []\<rparr>"
  define s2 where "s2 = \<lparr>queue = [], visited = {''/docs/districts''}, results = [],
      workers = [Delaying t1, AtLoopHead, AtLoopHead, AtLoopHead, AtLoopHead],
      dequeued = [t1, t2], fetched = [], failures = []\<rparr>"
  define s3 where "s3 = \<lparr>queue = [], visited = {''/docs/districts''}, results = [],
      workers = [Fetching t1, AtLoopHead, AtLoopHead, AtLoopHead, AtLoopHead],
      dequeued = [t1, t2], fetched = [t1], failures = []\<rparr>"
  define e where "e = (\<lambda>ws. \<lparr>queue = [], visited = {''/docs/districts''},
      results = [sharedResult], workers = ws,
      dequeued = [t1, t2], fetched = [t1], failures = []\<rparr>)"
  have seeds: "sharedSeeds = [t1, t2]"
    by (simp add: sharedSeeds_def t1_def t2_def)
  have i0: "initialState sharedSeeds = s0"
    by (simp add: initialState_def five_workers seeds s0_def)
  have r0: "reachable 200 sharedSeeds s0"
    using reachable.start [of 200 sharedSeeds] by (simp only: i0)
  have p1: "taskPath t1 = ''/docs/districts''" and p2: "taskPath t2 = ''/docs/districts''"
    and c1: "taskSection t1 = ''APIs & Data Model''"
    by (simp_all add: t1_def t2_def)
  have "step 200 s0 (s0\<lparr>queue := [t2], visited := insert (taskPath t1) (visited s0),
              workers := (workers s0)[0 := Delaying t1],
              dequeued := dequeued s0 @ [t1]\<rparr>)"
    by (rule step.claim) (simp_all add: s0_def)
  then have st1: "step 200 s0 s1"
    by (simp add: s0_def s1_def p1)
  have "step 200 s1 (s1\<lparr>queue := [], dequeued := dequeued s1 @ [t2]\<rparr>)"
    by (rule step.skip [where i = 1]) (simp_all add: s1_def p2)
  then have st2: "step 200 s1 s2"
    by (simp add: s1_def s2_def)
  have "step 200 s2 (s2\<lparr>workers := (workers s2)[0 := Fetching t1], fetched := fetched s2 @ [t1]\<rparr>)"
    by (rule step.call) (simp_all add: s2_def)
  then have st3: "step 200 s2 s3"
    by (simp add: s2_def s3_def)
  have cp: "crawlPage 200 (taskPath t1) (taskSection t1) leafNetwork = Some sharedResult"
    using crawlPage_shared by (simp add: p1 c1)
  have "step 200 s3
          (s3\<lparr>queue := enqueueDiscovered (discoveredPaths sharedResult) (visited s3) (queue s3),
              results := results s3 @ [sharedResult],
              workers := (workers s3)[0 := AtLoopHead]\<rparr>)"
    by (rule step.finished [where item = t1 and net = leafNetwork])
       (simp_all add: s3_def cp)
  then have st4: "step 200 s3 (e [AtLoopHead, AtLoopHead, AtLoopHead, AtLoopHead, AtLoopHead])"
    by (simp add: s3_def e_def discovered_shared)
  have lv: "step 200 (e ws) (e (ws[i := Exited]))"
    if "i < length ws" and "ws ! i = AtLoopHead" for ws i
  proof -
    have "step 200 (e ws) ((e ws)\<lparr>workers := (workers (e ws))[i := Exited]\<rparr>)"
      using that by (intro step.leave) (simp_all add: e_def)
    then show ?thesis by (simp add: e_def)
  qed
  have st5: "step 200 (e [AtLoopHead, AtLoopHead, AtLoopHead, AtLoopHead, AtLoopHead])
      (e [Exited, AtLoopHead, AtLoopHead, AtLoopHead, AtLoopHead])"
    using lv [of 0 "[AtLoopHead, AtLoopHead, AtLoopHead, AtLoopHead, AtLoopHead]"] by simp
  have st6: "step 200 (e [Exited, AtLoopHead, AtLoopHead, AtLoopHead, AtLoopHead])
      (e [Exited, Exited, AtLoopHead, AtLoopHead, AtLoopHead])"
    using lv [of 1 "[Exited, AtLoopHead, AtLoopHead, AtLoopHead, AtLoopHead]"] by simp
  have st7: "step 200 (e [Exited, Exited, AtLoopHead, AtLoopHead, AtLoopHead])
      (e [Exited, Exited, Exited, AtLoopHead, AtLoopHead])"
    using lv [of 2 "[Exited, Exited, AtLoopHead, AtLoopHead, AtLoopHead]"] by simp
  have st8: "step 200 (e [Exited, Exited, Exited, AtLoopHead, AtLoopHead])
      (e [Exited, Exited, Exited, Exited, AtLoopHead])"
    using lv [of 3 "[Exited, Exited, Exited, AtLoopHead, AtLoopHead]"] by simp
  have st9: "step 200 (e [Exited, Exited, Exited, Exited, AtLoopHead])
      (e [Exited, Exited, Exited, Exited, Exited])"
    using lv [of 4 "[Exited, Exited, Exited, Exited, AtLoopHead]"] by simp
  have fin: "e [Exited, Exited, Exited, Exited, Exited] = sharedEnd"
    by (simp add: e_def sharedEnd_def seeds t1_def t2_def)
  from r0 st1 have "reachable 200 sharedSeeds s1" by (rule reachable.after)
  from this st2 have "reachable 200 sharedSeeds s2" by (rule reachable.after)
  from this st3 have "reachable 200 sharedSeeds s3" by (rule reachable.after)
  from this st4 have "reachable 200 sharedSeeds
      (e [AtLoopHead, AtLoopHead, AtLoopHead, AtLoopHead, AtLoopHead])" by (rule reachable.after)
  from this st5 have "reachable 200 sharedSeeds
      (e [Exited, AtLoopHead, AtLoopHead, AtLoopHead, AtLoopHead])" by (rule reachable.after)
  from this st6 have "reachable 200 sharedSeeds
      (e [Exited, Exited, AtLoopHead, AtLoopHead, AtLoopHead])" by (rule reachable.after)
  from this st7 have "reachable 200 sharedSeeds
      (e [Exited, Exited, Exited, AtLoopHead, AtLoopHead])" by (rule reachable.after)
  from this st8 have "reachable 200 sharedSeeds
      (e [Exited, Exited, Exited, Exited, AtLoopHead])" by (rule reachable.after)
  from this st9 have "reachable 200 sharedSeeds
      (e [Exited, Exited, Exited, Exited, Exited])" by (rule reachable.after)
  then show ?thesis by (simp only: fin)
qed

theorem crawlAll_fetches_once_witness:
  "reachable 200 sharedSeeds sharedEnd
   \<and> results sharedEnd = [sharedResult]
   \<and> path sharedResult = ''/docs/districts''
   \<and> sectionName sharedResult = ''APIs & Data Model''
   \<and> distinct (map taskPath (fetched sharedEnd))
   \<and> length (filter (\<lambda>r. path r = ''/docs/districts'') (results sharedEnd)) = 1
   \<and> firstDequeued sharedEnd (path sharedResult)
       = Some \<lparr>taskPath = path sharedResult, taskSection = sectionName sharedResult\<rparr>"
proof -
  note T = crawlAll_fetches_once [OF reachable_sharedEnd]
  let ?t1 = "\<lparr>taskPath = ''/docs/districts'', taskSection = ''APIs & Data Model''\<rparr>"
  have res: "results sharedEnd = [sharedResult]"
    by (simp add: sharedEnd_def)
  have f: "path sharedResult = ''/docs/districts''"
    "sectionName sharedResult = ''APIs & Data Model''"
    by (simp_all add: sharedResult_def extractFromHtml_def)
  from T have d: "distinct (map taskPath (fetched sharedEnd))"
    by (rule conjunct1)
  have ex: "\<forall>w\<in>set (workers sharedEnd). w = Exited"
    by (simp add: sharedEnd_def)
  have m: "?t1 \<in> set sharedSeeds"
    by (simp add: sharedSeeds_def)
  have nf: "taskPath ?t1 \<notin> taskPath ` set (failures sharedEnd)"
    by (simp add: sharedEnd_def)
  from T ex have "\<forall>t\<in>set sharedSeeds. taskPath t \<notin> taskPath ` set (failures sharedEnd) \<longrightarrow>
                  length (filter (\<lambda>r. path r = taskPath t) (results sharedEnd)) = 1"
    by blast
  with m nf have "length (filter (\<lambda>r. path r = taskPath ?t1) (results sharedEnd)) = 1"
    by blast
  then have l: "length (filter (\<lambda>r. path r = ''/docs/districts'') (results sharedEnd)) = 1"
    by simp
  have "sharedResult \<in> set (results sharedEnd)"
    by (simp add: res)
  with T have fd: "firstDequeued sharedEnd (path sharedResult)
       = Some \<lparr>taskPath = path sharedResult, taskSection = sectionName sharedResult\<rparr>"
    by blast
  from reachable_sharedEnd res f d l fd show ?thesis
    by (intro conjI)
qed


end
